theory Spec2Isabelle
  imports Main "HOL-Library.Multiset" "HOL-Library.Signed_Division"
begin

section \<open>Arrays of C ints with checked indexing\<close>

text \<open>
  The sorting routines of \<^verbatim>\<open>oetsort.c\<close> and \<^verbatim>\<open>shearsort.c\<close> take a pointer
  \<^verbatim>\<open>int *row\<close> and an \<^verbatim>\<open>int length\<close>. The array is a list of integers (the
  elements are only compared and copied, never added, so no wrap-around can occur), the
  indices are C ints and so range over the negative numbers too (a row of the matrix is
  far shorter than \<^verbatim>\<open>INT_MAX\<close>, so the index arithmetic itself does not wrap). An access
  outside the array is undefined behaviour in C; in the model it is the error value
  \<open>OutOfBounds k\<close>, \<open>k\<close> the offending index.
\<close>

datatype error = OutOfBounds int

definition rd :: "int list \<Rightarrow> int \<Rightarrow> error + int" where
  "rd row k = (if 0 \<le> k \<and> k < int (length row) then Inr (row ! nat k) else Inl (OutOfBounds k))"

definition wr :: "int list \<Rightarrow> int \<Rightarrow> int \<Rightarrow> error + int list" where
  "wr row k v =
     (if 0 \<le> k \<and> k < int (length row) then Inr (row[nat k := v]) else Inl (OutOfBounds k))"

subsection \<open>The pair passes of \<^verbatim>\<open>oetsort.c\<close>\<close>

text \<open>
  The body shared by \<^verbatim>\<open>esort\<close> and \<^verbatim>\<open>osort\<close>:
  \<^verbatim>\<open>if (row[i+1] < row[i]) { temp = row[i+1]; row[i+1] = row[i]; row[i] = temp; }\<close>
\<close>

definition exchange_asc :: "int list \<Rightarrow> int \<Rightarrow> error + int list" where
  "exchange_asc row i =
     (case rd row (i + 1) of Inl e \<Rightarrow> Inl e | Inr a \<Rightarrow>
      (case rd row i of Inl e \<Rightarrow> Inl e | Inr b \<Rightarrow>
       if a < b then
         (case wr row (i + 1) b of Inl e \<Rightarrow> Inl e | Inr row1 \<Rightarrow> wr row1 i a)
       else Inr row))"

text \<open>
  The body shared by \<^verbatim>\<open>ersort\<close> and \<^verbatim>\<open>orsort\<close>:
  \<^verbatim>\<open>if (row[i+1] > row[i]) { temp = row[i+1]; row[i+1] = row[i]; row[i] = temp; }\<close>
\<close>

definition exchange_desc :: "int list \<Rightarrow> int \<Rightarrow> error + int list" where
  "exchange_desc row i =
     (case rd row (i + 1) of Inl e \<Rightarrow> Inl e | Inr a \<Rightarrow>
      (case rd row i of Inl e \<Rightarrow> Inl e | Inr b \<Rightarrow>
       if a > b then
         (case wr row (i + 1) b of Inl e \<Rightarrow> Inl e | Inr row1 \<Rightarrow> wr row1 i a)
       else Inr row))"

text \<open>The loop \<^verbatim>\<open>for (i = ...; i < length - 1; i += 2)\<close> around the ascending body.\<close>

function pairs_asc :: "int list \<Rightarrow> int \<Rightarrow> int \<Rightarrow> error + int list" where
  "pairs_asc row len i =
     (if i < len - 1 then
        (case exchange_asc row i of Inl e \<Rightarrow> Inl e | Inr row' \<Rightarrow> pairs_asc row' len (i + 2))
      else Inr row)"
  by pat_completeness auto
termination
  by (relation "measure (\<lambda>(row, len, i). nat (len - i))") auto

function pairs_desc :: "int list \<Rightarrow> int \<Rightarrow> int \<Rightarrow> error + int list" where
  "pairs_desc row len i =
     (if i < len - 1 then
        (case exchange_desc row i of Inl e \<Rightarrow> Inl e | Inr row' \<Rightarrow> pairs_desc row' len (i + 2))
      else Inr row)"
  by pat_completeness auto
termination
  by (relation "measure (\<lambda>(row, len, i). nat (len - i))") auto

text \<open>\<^verbatim>\<open>esort\<close>, \<^verbatim>\<open>ersort\<close> start at \<open>i = 0\<close>; \<^verbatim>\<open>osort\<close>, \<^verbatim>\<open>orsort\<close> at \<open>i = 1\<close>.\<close>

definition esort :: "int list \<Rightarrow> int \<Rightarrow> error + int list" where
  "esort row len = pairs_asc row len 0"

definition ersort :: "int list \<Rightarrow> int \<Rightarrow> error + int list" where
  "ersort row len = pairs_desc row len 0"

definition osort :: "int list \<Rightarrow> int \<Rightarrow> error + int list" where
  "osort row len = pairs_asc row len 1"

definition orsort :: "int list \<Rightarrow> int \<Rightarrow> error + int list" where
  "orsort row len = pairs_desc row len 1"

subsection \<open>The exchange sorts of \<^verbatim>\<open>shearsort.c\<close>\<close>

text \<open>
  The body of \<^verbatim>\<open>sort\<close>:
  \<^verbatim>\<open>if (row[j-1] > row[j]) { temp = row[j-1]; row[j-1] = row[j]; row[j] = temp; }\<close>
\<close>

definition bubble_asc :: "int list \<Rightarrow> int \<Rightarrow> error + int list" where
  "bubble_asc row j =
     (case rd row (j - 1) of Inl e \<Rightarrow> Inl e | Inr a \<Rightarrow>
      (case rd row j of Inl e \<Rightarrow> Inl e | Inr b \<Rightarrow>
       if a > b then
         (case wr row (j - 1) b of Inl e \<Rightarrow> Inl e | Inr row1 \<Rightarrow> wr row1 j a)
       else Inr row))"

text \<open>The body of \<^verbatim>\<open>rsort\<close>, with \<^verbatim>\<open>row[j-1] < row[j]\<close> as its test.\<close>

definition bubble_desc :: "int list \<Rightarrow> int \<Rightarrow> error + int list" where
  "bubble_desc row j =
     (case rd row (j - 1) of Inl e \<Rightarrow> Inl e | Inr a \<Rightarrow>
      (case rd row j of Inl e \<Rightarrow> Inl e | Inr b \<Rightarrow>
       if a < b then
         (case wr row (j - 1) b of Inl e \<Rightarrow> Inl e | Inr row1 \<Rightarrow> wr row1 j a)
       else Inr row))"

text \<open>The inner loop \<^verbatim>\<open>for (j = length - 1; j >= 0; j--)\<close>.\<close>

function sort_inner :: "int list \<Rightarrow> int \<Rightarrow> error + int list" where
  "sort_inner row j =
     (if j \<ge> 0 then
        (case bubble_asc row j of Inl e \<Rightarrow> Inl e | Inr row' \<Rightarrow> sort_inner row' (j - 1))
      else Inr row)"
  by pat_completeness auto
termination
  by (relation "measure (\<lambda>(row, j). nat (j + 1))") auto

function rsort_inner :: "int list \<Rightarrow> int \<Rightarrow> error + int list" where
  "rsort_inner row j =
     (if j \<ge> 0 then
        (case bubble_desc row j of Inl e \<Rightarrow> Inl e | Inr row' \<Rightarrow> rsort_inner row' (j - 1))
      else Inr row)"
  by pat_completeness auto
termination
  by (relation "measure (\<lambda>(row, j). nat (j + 1))") auto

text \<open>The outer loop \<^verbatim>\<open>for (i = 0; i < length; i++)\<close>.\<close>

function sort_outer :: "int list \<Rightarrow> int \<Rightarrow> int \<Rightarrow> error + int list" where
  "sort_outer row len i =
     (if i < len then
        (case sort_inner row (len - 1) of Inl e \<Rightarrow> Inl e | Inr row' \<Rightarrow> sort_outer row' len (i + 1))
      else Inr row)"
  by pat_completeness auto
termination
  by (relation "measure (\<lambda>(row, len, i). nat (len - i))") auto

function rsort_outer :: "int list \<Rightarrow> int \<Rightarrow> int \<Rightarrow> error + int list" where
  "rsort_outer row len i =
     (if i < len then
        (case rsort_inner row (len - 1) of Inl e \<Rightarrow> Inl e | Inr row' \<Rightarrow> rsort_outer row' len (i + 1))
      else Inr row)"
  by pat_completeness auto
termination
  by (relation "measure (\<lambda>(row, len, i). nat (len - i))") auto

definition sort_c :: "int list \<Rightarrow> int \<Rightarrow> error + int list" where
  "sort_c row len = sort_outer row len 0"

definition rsort :: "int list \<Rightarrow> int \<Rightarrow> error + int list" where
  "rsort row len = rsort_outer row len 0"

text \<open>
  Every process of \<^verbatim>\<open>oetsort.c\<close> sorts a band with two calls in a row,
  \<^verbatim>\<open>osort(numbers, DIMENSION); esort(numbers, DIMENSION);\<close> (ascending) or
  \<^verbatim>\<open>orsort(numbers, DIMENSION); ersort(numbers, DIMENSION);\<close> (descending).
\<close>

definition odd_even_pass :: "int list \<Rightarrow> int \<Rightarrow> error + int list" where
  "odd_even_pass row len =
     (case osort row len of Inl e \<Rightarrow> Inl e | Inr row' \<Rightarrow> esort row' len)"

definition odd_even_pass_desc :: "int list \<Rightarrow> int \<Rightarrow> error + int list" where
  "odd_even_pass_desc row len =
     (case orsort row len of Inl e \<Rightarrow> Inl e | Inr row' \<Rightarrow> ersort row' len)"

text \<open>The pass repeated \<open>k\<close> times on the same array.\<close>

fun odd_even_passes :: "nat \<Rightarrow> int list \<Rightarrow> int \<Rightarrow> error + int list" where
  "odd_even_passes 0 row len = Inr row"
| "odd_even_passes (Suc k) row len =
     (case odd_even_pass row len of Inl e \<Rightarrow> Inl e | Inr row' \<Rightarrow> odd_even_passes k row' len)"

section \<open>The matrix\<close>

text \<open>
  \<^verbatim>\<open>int matrix[DIMENSION][DIMENSION]\<close> is an array of rows: a list of lists of integers,
  \<open>M ! r ! c\<close> for \<^verbatim>\<open>matrix[r][c]\<close>. A matrix of the program has \<open>D\<close> rows of length \<open>D\<close>.
\<close>

type_synonym matrix = "int list list"

definition wf_matrix :: "nat \<Rightarrow> matrix \<Rightarrow> bool" where
  "wf_matrix D M = (length M = D \<and> (\<forall>row \<in> set M. length row = D))"

subsection \<open>Bands: rows and columns in transit\<close>

text \<open>
  A row travels as the buffer \<^verbatim>\<open>(&matrix[r][0], DIMENSION, MPI_INT)\<close>: the \<open>D\<close> integers
  from \<^verbatim>\<open>matrix[r][0]\<close> on. \<^verbatim>\<open>MPI_Send\<close> reads it, \<^verbatim>\<open>MPI_Recv\<close> overwrites it.
\<close>

definition extract_row :: "nat \<Rightarrow> matrix \<Rightarrow> nat \<Rightarrow> int list" where
  "extract_row D M r = map (\<lambda>k. M ! r ! k) [0..<D]"

definition deposit_row :: "nat \<Rightarrow> matrix \<Rightarrow> nat \<Rightarrow> int list \<Rightarrow> matrix" where
  "deposit_row D M r band = M[r := take D band @ drop D (M ! r)]"

text \<open>
  A column travels as \<^verbatim>\<open>(&matrix[0][c], 1, column_type)\<close>, where \<^verbatim>\<open>column_type\<close> is
  \<^verbatim>\<open>MPI_Type_vector(DIMENSION, 1, DIMENSION, MPI_INT)\<close>: \<open>D\<close> blocks of one integer, a row
  apart, that is \<^verbatim>\<open>matrix[0][c]\<close>, \<^verbatim>\<open>matrix[1][c]\<close>, ...
\<close>

definition extract_column :: "nat \<Rightarrow> matrix \<Rightarrow> nat \<Rightarrow> int list" where
  "extract_column D M c = map (\<lambda>k. M ! k ! c) [0..<D]"

text \<open>
  The Controller's own column goes through the buffer \<^verbatim>\<open>numbers\<close>:
  \<^verbatim>\<open>for (i = 0; i < DIMENSION; i++) numbers[i] = matrix[i][c];\<close>
\<close>

function column_to_numbers :: "nat \<Rightarrow> matrix \<Rightarrow> nat \<Rightarrow> int list \<Rightarrow> nat \<Rightarrow> int list" where
  "column_to_numbers D M c numbers i =
     (if i < D then column_to_numbers D M c (numbers[i := M ! i ! c]) (i + 1) else numbers)"
  by pat_completeness auto
termination
  by (relation "measure (\<lambda>(D, M, c, numbers, i). D - i)") auto

text \<open>\<^verbatim>\<open>for (i = 0; i < DIMENSION; i++) matrix[i][c] = numbers[i];\<close>\<close>

function numbers_to_column :: "nat \<Rightarrow> matrix \<Rightarrow> nat \<Rightarrow> int list \<Rightarrow> nat \<Rightarrow> matrix" where
  "numbers_to_column D M c numbers i =
     (if i < D then numbers_to_column D (M[i := (M ! i)[c := numbers ! i]]) c numbers (i + 1)
      else M)"
  by pat_completeness auto
termination
  by (relation "measure (\<lambda>(D, M, c, numbers, i). D - i)") auto

text \<open>Receiving a column with \<^verbatim>\<open>column_type\<close> stores the band down column \<open>c\<close>.\<close>

definition deposit_column :: "nat \<Rightarrow> matrix \<Rightarrow> nat \<Rightarrow> int list \<Rightarrow> matrix" where
  "deposit_column D M c band = numbers_to_column D M c band 0"

subsection \<open>The convergence check\<close>

text \<open>
  Both programs end a pass with the same two loop nests over \<^verbatim>\<open>is_sorted\<close>
  (\<^verbatim>\<open>oetsort.c\<close> lines 345-359, \<^verbatim>\<open>shearsort.c\<close> lines 284-297). The first walks the
  diagonals that start in column 0, the second those that start in row 0; every loop
  stops as soon as \<^verbatim>\<open>is_sorted\<close> is \<^verbatim>\<open>FALSE\<close>.
\<close>

function walk_lower :: "nat \<Rightarrow> matrix \<Rightarrow> nat \<Rightarrow> nat \<Rightarrow> bool \<Rightarrow> bool" where
  "walk_lower D M current_row current_column is_sorted =
     (if current_row < D - 1 \<and> is_sorted then
        walk_lower D M (current_row + 1) (current_column + 1)
          (if M ! current_row ! current_column > M ! (current_row + 1) ! (current_column + 1)
           then False else is_sorted)
      else is_sorted)"
  by pat_completeness auto
termination
  by (relation "measure (\<lambda>(D, M, r, c, s). D - r)") auto

function scan_lower :: "nat \<Rightarrow> matrix \<Rightarrow> nat \<Rightarrow> bool \<Rightarrow> bool" where
  "scan_lower D M i is_sorted =
     (if i < D - 1 \<and> is_sorted then scan_lower D M (i + 1) (walk_lower D M i 0 is_sorted)
      else is_sorted)"
  by pat_completeness auto
termination
  by (relation "measure (\<lambda>(D, M, i, s). D - i)") auto

function walk_upper :: "nat \<Rightarrow> matrix \<Rightarrow> nat \<Rightarrow> nat \<Rightarrow> bool \<Rightarrow> bool" where
  "walk_upper D M current_row current_column is_sorted =
     (if current_column < D - 1 \<and> is_sorted then
        walk_upper D M (current_row + 1) (current_column + 1)
          (if M ! current_row ! current_column > M ! (current_row + 1) ! (current_column + 1)
           then False else is_sorted)
      else is_sorted)"
  by pat_completeness auto
termination
  by (relation "measure (\<lambda>(D, M, r, c, s). D - c)") auto

function scan_upper :: "nat \<Rightarrow> matrix \<Rightarrow> nat \<Rightarrow> bool \<Rightarrow> bool" where
  "scan_upper D M j is_sorted =
     (if j < D - 1 \<and> is_sorted then scan_upper D M (j + 1) (walk_upper D M 0 j is_sorted)
      else is_sorted)"
  by pat_completeness auto
termination
  by (relation "measure (\<lambda>(D, M, j, s). D - j)") auto

definition check_sorted :: "nat \<Rightarrow> matrix \<Rightarrow> bool" where
  "check_sorted D M = scan_upper D M 0 (scan_lower D M 0 True)"

text \<open>
  Snake order as the specification words it: every cell is at most its neighbour one row
  down and one column to the right, wherever both cells are inside the matrix.
\<close>

definition snake_order :: "nat \<Rightarrow> matrix \<Rightarrow> bool" where
  "snake_order D M =
     (\<forall>r \<in> set [0..<D]. \<forall>c \<in> set [0..<D].
        r + 1 < D \<and> c + 1 < D \<longrightarrow> M ! r ! c \<le> M ! (r + 1) ! (c + 1))"

text \<open>One pair of the check: the cell at \<open>(r, c)\<close> against the cell at \<open>(r + 1, c + 1)\<close>.\<close>

definition diag_ok :: "matrix \<Rightarrow> nat \<Rightarrow> nat \<Rightarrow> bool" where
  "diag_ok M r c = (M ! r ! c \<le> M ! (r + 1) ! (c + 1))"

section \<open>The transposition sort (\<^verbatim>\<open>oetsort.c\<close>)\<close>

subsection \<open>Startup\<close>

text \<open>
  Everything \<^verbatim>\<open>main\<close> does before the sorting loop (lines 186-241) can end the run with
  \<^verbatim>\<open>exit(1)\<close> after one of six messages.
\<close>

datatype message =
    Usage
  | InvalidDimension
  | MpiSetupFailed
  | ProcessCountMismatch
  | AllocationFailed
  | DatatypeFailed

datatype startup = Exit int message | Proceed int

text \<open>
  The kinds of failure of the specification (section 7): a bad argument and a mismatch of
  dimension and process count are validation errors, a failed allocation is a resource
  error, a non-zero status of the messaging layer is a transport error.
\<close>

datatype failure = ValidationError | ResourceError | TransportError

fun failure_class :: "message \<Rightarrow> failure" where
  "failure_class Usage = ValidationError"
| "failure_class InvalidDimension = ValidationError"
| "failure_class ProcessCountMismatch = ValidationError"
| "failure_class AllocationFailed = ResourceError"
| "failure_class MpiSetupFailed = TransportError"
| "failure_class DatatypeFailed = TransportError"

text \<open>
  \<^verbatim>\<open>calloc(DIMENSION, sizeof(int))\<close> takes its first argument as a \<^verbatim>\<open>size_t\<close>, so the int
  is converted modulo \<open>2 ^ 64\<close> (64-bit \<^verbatim>\<open>size_t\<close>; \<^verbatim>\<open>sizeof(int)\<close> is 4). The C library
  returns \<^verbatim>\<open>NULL\<close> when the product of its arguments does not fit a \<^verbatim>\<open>size_t\<close> or
  exceeds what the allocator can still hand out, the parameter \<open>heap\<close>.
\<close>

definition SIZE_MAX :: nat where
  "SIZE_MAX = 2 ^ 64 - 1"

definition size_t_of_int :: "int \<Rightarrow> nat" where
  "size_t_of_int k = nat (k mod 2 ^ 64)"

definition calloc_returns_null :: "nat \<Rightarrow> nat \<Rightarrow> nat \<Rightarrow> bool" where
  "calloc_returns_null heap nmemb bytes = (SIZE_MAX < nmemb * bytes \<or> heap < nmemb * bytes)"

text \<open>
  The tests of \<^verbatim>\<open>main\<close> in their order: the argument count (line 186), the dimension
  (line 191), the MPI set-up (line 202), the divisibility (line 208), the allocation of
  \<^verbatim>\<open>numbers\<close> (line 226) and the column datatype (line 237). \<open>dimension_arg\<close> is the value
  \<^verbatim>\<open>atoi(argv[1])\<close> of the C library; \<open>error_code\<close> is what the last of the MPI set-up
  calls returned and \<open>type_error_code\<close> what \<^verbatim>\<open>MPI_Type_commit\<close> returned. \<^verbatim>\<open>%\<close> on C ints
  truncates towards zero (\<open>smod\<close>). Between the fourth and the fifth test \<^verbatim>\<open>main\<close> declares
  \<^verbatim>\<open>int matrix[DIMENSION][DIMENSION]\<close>; no element of it is touched before the sorting loop,
  so the declaration has no part in the result (with a \<^verbatim>\<open>DIMENSION\<close> below 1 ISO C leaves
  it undefined; the compiled program moves the stack pointer and goes on). \<open>Proceed d\<close>
  means that no test exited and the sorting loop is entered with \<^verbatim>\<open>DIMENSION = d\<close>.
\<close>

definition oet_startup :: "int \<Rightarrow> int \<Rightarrow> int \<Rightarrow> int \<Rightarrow> nat \<Rightarrow> int \<Rightarrow> startup" where
  "oet_startup argc dimension_arg error_code NUMBER_OF_PROCESSES heap type_error_code =
     (if argc \<noteq> 2 then Exit 1 Usage
      else if dimension_arg = 0 then Exit 1 InvalidDimension
      else if error_code \<noteq> 0 then Exit 1 MpiSetupFailed
      else if dimension_arg smod NUMBER_OF_PROCESSES \<noteq> 0 then Exit 1 ProcessCountMismatch
      else if calloc_returns_null heap (size_t_of_int dimension_arg) 4 then Exit 1 AllocationFailed
      else if type_error_code \<noteq> 0 then Exit 1 DatatypeFailed
      else Proceed dimension_arg)"

subsection \<open>Workers\<close>

text \<open>
  A worker answers every row it receives (lines 391-400) and every column (lines
  408-411) with the band sorted in place.
\<close>

definition oet_worker_row :: "nat \<Rightarrow> int list \<Rightarrow> nat \<Rightarrow> error + int list" where
  "oet_worker_row PROCESS_ID numbers D =
     (if PROCESS_ID mod 2 = 0 then odd_even_pass numbers (int D)
      else odd_even_pass_desc numbers (int D))"

definition oet_worker_column :: "int list \<Rightarrow> nat \<Rightarrow> error + int list" where
  "oet_worker_column numbers D = odd_even_pass numbers (int D)"

subsection \<open>The Controller's row phase\<close>

text \<open>
  One turn of the loop over \<open>i\<close> (lines 284-300) sends the rows \<open>current_row\<close>,
  \<open>current_row + 1\<close>, ... to the workers \<open>1\<close>, \<open>2\<close>, ..., sorts the next row itself and
  then receives the workers' answers into the rows it sent. The sends leave the matrix
  alone, so the rows sent are kept as a list; the worker's answer to a row is the worker's
  function of it (send and receive are blocking and in order on each channel).
\<close>

definition oet_send_rows :: "nat \<Rightarrow> nat \<Rightarrow> matrix \<Rightarrow> nat \<Rightarrow> int list list" where
  "oet_send_rows D P M current_row =
     map (\<lambda>destination. extract_row D M (current_row + (destination - 1))) [1..<P]"

definition oet_sort_own_row :: "nat \<Rightarrow> matrix \<Rightarrow> nat \<Rightarrow> error + matrix" where
  "oet_sort_own_row D M current_row =
     (case odd_even_pass (extract_row D M current_row) (int D) of
        Inl e \<Rightarrow> Inl e
      | Inr row' \<Rightarrow> Inr (deposit_row D M current_row row'))"

function oet_recv_rows ::
  "nat \<Rightarrow> nat \<Rightarrow> int list list \<Rightarrow> nat \<Rightarrow> nat \<Rightarrow> matrix \<Rightarrow> error + matrix" where
  "oet_recv_rows D P sent source previous_row M =
     (if source < P then
        (case oet_worker_row source (sent ! (source - 1)) D of
           Inl e \<Rightarrow> Inl e
         | Inr answer \<Rightarrow>
             oet_recv_rows D P sent (source + 1) (previous_row + 1)
               (deposit_row D M previous_row answer))
      else Inr M)"
  by pat_completeness auto
termination
  by (relation "measure (\<lambda>(D, P, sent, source, previous_row, M). P - source)") auto

function oet_row_phase :: "nat \<Rightarrow> nat \<Rightarrow> nat \<Rightarrow> nat \<Rightarrow> nat \<Rightarrow> matrix \<Rightarrow> error + matrix" where
  "oet_row_phase D P ROWS i current_row M =
     (if i < ROWS then
        (let previous_row = current_row;
             sent = oet_send_rows D P M current_row;
             current_row = current_row + (P - 1)
         in case oet_sort_own_row D M current_row of
              Inl e \<Rightarrow> Inl e
            | Inr M1 \<Rightarrow>
               (case oet_recv_rows D P sent 1 previous_row M1 of
                  Inl e \<Rightarrow> Inl e
                | Inr M2 \<Rightarrow> oet_row_phase D P ROWS (i + 1) (current_row + 1) M2))
      else Inr M)"
  by pat_completeness auto
termination
  by (relation "measure (\<lambda>(D, P, ROWS, i, current_row, M). ROWS - i)") auto

subsection \<open>The Controller's column phase\<close>

text \<open>
  The loop over \<open>j\<close> (lines 311-334) does the same with columns; the Controller's own
  column goes through the buffer \<^verbatim>\<open>numbers\<close>, which the state carries along.
\<close>

definition oet_send_columns :: "nat \<Rightarrow> nat \<Rightarrow> matrix \<Rightarrow> nat \<Rightarrow> int list list" where
  "oet_send_columns D P M current_column =
     map (\<lambda>destination. extract_column D M (current_column + (destination - 1))) [1..<P]"

definition oet_sort_own_column ::
  "nat \<Rightarrow> matrix \<times> int list \<Rightarrow> nat \<Rightarrow> error + matrix \<times> int list" where
  "oet_sort_own_column D st current_column =
     (let numbers = column_to_numbers D (fst st) current_column (snd st) 0
      in case odd_even_pass numbers (int D) of
           Inl e \<Rightarrow> Inl e
         | Inr numbers' \<Rightarrow> Inr (numbers_to_column D (fst st) current_column numbers' 0, numbers'))"

function oet_recv_columns ::
  "nat \<Rightarrow> nat \<Rightarrow> int list list \<Rightarrow> nat \<Rightarrow> nat \<Rightarrow> matrix \<Rightarrow> error + matrix" where
  "oet_recv_columns D P sent source previous_column M =
     (if source < P then
        (case oet_worker_column (sent ! (source - 1)) D of
           Inl e \<Rightarrow> Inl e
         | Inr answer \<Rightarrow>
             oet_recv_columns D P sent (source + 1) (previous_column + 1)
               (deposit_column D M previous_column answer))
      else Inr M)"
  by pat_completeness auto
termination
  by (relation "measure (\<lambda>(D, P, sent, source, previous_column, M). P - source)") auto

function oet_column_phase ::
  "nat \<Rightarrow> nat \<Rightarrow> nat \<Rightarrow> nat \<Rightarrow> nat \<Rightarrow> matrix \<times> int list \<Rightarrow> error + matrix \<times> int list" where
  "oet_column_phase D P ROWS j current_column st =
     (if j < ROWS then
        (let previous_column = current_column;
             sent = oet_send_columns D P (fst st) current_column;
             current_column = current_column + (P - 1)
         in case oet_sort_own_column D st current_column of
              Inl e \<Rightarrow> Inl e
            | Inr st1 \<Rightarrow>
               (case oet_recv_columns D P sent 1 previous_column (fst st1) of
                  Inl e \<Rightarrow> Inl e
                | Inr M2 \<Rightarrow> oet_column_phase D P ROWS (j + 1) (current_column + 1) (M2, snd st1)))
      else Inr st)"
  by pat_completeness auto
termination
  by (relation "measure (\<lambda>(D, P, ROWS, j, current_column, st). ROWS - j)") auto

subsection \<open>Super-steps until sorted\<close>

text \<open>
  The body of the \<^verbatim>\<open>do\<close> loop up to the check: a row phase, then a column phase, each
  over \<^verbatim>\<open>NUMBER_OF_ROWS_PER_PROCESS = DIMENSION / NUMBER_OF_PROCESSES\<close> turns.
\<close>

definition oet_super_step :: "nat \<Rightarrow> nat \<Rightarrow> matrix \<times> int list \<Rightarrow> error + matrix \<times> int list" where
  "oet_super_step D P st =
     (case oet_row_phase D P (D div P) 0 0 (fst st) of
        Inl e \<Rightarrow> Inl e
      | Inr M1 \<Rightarrow> oet_column_phase D P (D div P) 0 0 (M1, snd st))"

text \<open>
  \<^verbatim>\<open>do { ... } while (is_sorted == FALSE);\<close> may go on for ever: the loop is a partial
  function and \<open>None\<close> the run that never leaves it.
\<close>

partial_function (option) oet_master_loop ::
  "nat \<Rightarrow> nat \<Rightarrow> matrix \<times> int list \<Rightarrow> (error + matrix \<times> int list) option" where
  "oet_master_loop D P st =
     (case oet_super_step D P st of
        Inl e \<Rightarrow> Some (Inl e)
      | Inr st' \<Rightarrow> if check_sorted D (fst st') then Some (Inr st') else oet_master_loop D P st')"

text \<open>
  The Controller after startup: \<^verbatim>\<open>numbers\<close> comes from \<^verbatim>\<open>calloc\<close>, the loop runs, and
  \<^verbatim>\<open>main\<close> returns 0. The result is the exit code and the matrix at that moment.
\<close>

definition oet_master :: "nat \<Rightarrow> nat \<Rightarrow> matrix \<Rightarrow> (error + int \<times> matrix) option" where
  "oet_master D P M =
     (case oet_master_loop D P (M, replicate D 0) of
        None \<Rightarrow> None
      | Some (Inl e) \<Rightarrow> Some (Inl e)
      | Some (Inr st) \<Rightarrow> Some (Inr (0, fst st)))"

subsection \<open>Matrices that a super-step leaves alone\<close>

text \<open>
  Row \<open>r\<close> is sorted by the process \<open>oet_row_rank P r\<close>: in every turn of the row phase
  the next \<open>P - 1\<close> rows go to the workers 1, ..., \<open>P - 1\<close> and the row after them stays
  with the Controller, rank 0. \<open>oet_rows_ordered\<close> says that every row is already in the
  order its process sorts towards, \<open>columns_ordered\<close> that every column is non-decreasing.
\<close>

definition oet_row_rank :: "nat \<Rightarrow> nat \<Rightarrow> nat" where
  "oet_row_rank P r = (if r mod P = P - 1 then 0 else r mod P + 1)"

definition oet_rows_ordered :: "nat \<Rightarrow> nat \<Rightarrow> matrix \<Rightarrow> bool" where
  "oet_rows_ordered D P M =
     (\<forall>r \<in> set [0..<D]. if even (oet_row_rank P r) then sorted (M ! r) else sorted (rev (M ! r)))"

definition columns_ordered :: "nat \<Rightarrow> matrix \<Rightarrow> bool" where
  "columns_ordered D M = (\<forall>c \<in> set [0..<D]. sorted (extract_column D M c))"

section \<open>The shear sort (\<^verbatim>\<open>shearsort.c\<close>)\<close>

subsection \<open>Startup\<close>

text \<open>
  The tests of \<^verbatim>\<open>main\<close> before the sorting loop (lines 143-187): the argument count, the
  dimension (line 148), the MPI set-up, the process count (line 165) and the column
  datatype (line 183). \<^verbatim>\<open>matrix\<close> and \<^verbatim>\<open>numbers\<close> are both arrays on the stack here, and
  nothing is allocated with \<^verbatim>\<open>calloc\<close>.
\<close>

definition shear_startup :: "int \<Rightarrow> int \<Rightarrow> int \<Rightarrow> int \<Rightarrow> int \<Rightarrow> startup" where
  "shear_startup argc dimension_arg error_code NUMBER_OF_PROCESSES type_error_code =
     (if argc \<noteq> 2 then Exit 1 Usage
      else if dimension_arg \<le> 0 then Exit 1 InvalidDimension
      else if error_code \<noteq> 0 then Exit 1 MpiSetupFailed
      else if dimension_arg \<noteq> NUMBER_OF_PROCESSES then Exit 1 ProcessCountMismatch
      else if type_error_code \<noteq> 0 then Exit 1 DatatypeFailed
      else Proceed dimension_arg)"

subsection \<open>Workers\<close>

text \<open>
  The processes of the shear sort call \<^verbatim>\<open>sort\<close> and \<^verbatim>\<open>rsort\<close>. The definitions take the
  two routines as the parameters \<open>srt\<close> and \<open>rsrt\<close>, so that what a phase does with them can
  be stated whatever they compute; \<open>shear_master\<close> below is the program itself, with
  \<open>sort_c\<close> and \<open>rsort\<close> in their place.

  In each of the super-steps a worker sorts the row it receives by the parity of its rank
  (lines 320-328) and the column ascending (lines 333-335); the row of the last phase it
  sorts with \<^verbatim>\<open>sort\<close> (lines 341-343).
\<close>

type_synonym sorter = "int list \<Rightarrow> int \<Rightarrow> error + int list"

definition shear_worker_row :: "sorter \<Rightarrow> sorter \<Rightarrow> nat \<Rightarrow> int list \<Rightarrow> nat \<Rightarrow> error + int list" where
  "shear_worker_row srt rsrt PROCESS_ID numbers D =
     (if PROCESS_ID mod 2 = 0 then srt numbers (int D) else rsrt numbers (int D))"

definition shear_worker_column :: "sorter \<Rightarrow> int list \<Rightarrow> nat \<Rightarrow> error + int list" where
  "shear_worker_column srt numbers D = srt numbers (int D)"

definition shear_worker_last_row :: "sorter \<Rightarrow> nat \<Rightarrow> int list \<Rightarrow> nat \<Rightarrow> error + int list" where
  "shear_worker_last_row srt PROCESS_ID numbers D = srt numbers (int D)"

subsection \<open>The Controller\<close>

text \<open>
  Row \<open>destination\<close> goes to worker \<open>destination\<close> and its answer comes back into the same
  row (lines 231-236 and 272-277); \<open>worker\<close> is what the workers do in that phase.
\<close>

definition shear_send_rows :: "nat \<Rightarrow> nat \<Rightarrow> matrix \<Rightarrow> int list list" where
  "shear_send_rows D P M = map (\<lambda>destination. extract_row D M destination) [1..<P]"

function shear_recv_rows ::
  "(nat \<Rightarrow> int list \<Rightarrow> nat \<Rightarrow> error + int list) \<Rightarrow> nat \<Rightarrow> nat \<Rightarrow> int list list \<Rightarrow> nat \<Rightarrow> matrix
     \<Rightarrow> error + matrix" where
  "shear_recv_rows worker D P sent source M =
     (if source < P then
        (case worker source (sent ! (source - 1)) D of
           Inl e \<Rightarrow> Inl e
         | Inr answer \<Rightarrow> shear_recv_rows worker D P sent (source + 1) (deposit_row D M source answer))
      else Inr M)"
  by pat_completeness auto
termination
  by (relation "measure (\<lambda>(worker, D, P, sent, source, M). P - source)") auto

text \<open>\<^verbatim>\<open>sort(&matrix[0][0], DIMENSION);\<close> (line 239).\<close>

definition shear_sort_own_row :: "sorter \<Rightarrow> nat \<Rightarrow> matrix \<Rightarrow> error + matrix" where
  "shear_sort_own_row srt D M =
     (case srt (extract_row D M 0) (int D) of
        Inl e \<Rightarrow> Inl e
      | Inr row' \<Rightarrow> Inr (deposit_row D M 0 row'))"

text \<open>
  Column \<open>destination\<close> goes to worker \<open>destination\<close>; the answer is received into
  \<^verbatim>\<open>numbers\<close> and copied down the column (lines 247-255).
\<close>

definition shear_send_columns :: "nat \<Rightarrow> nat \<Rightarrow> matrix \<Rightarrow> int list list" where
  "shear_send_columns D P M = map (\<lambda>destination. extract_column D M destination) [1..<P]"

function shear_recv_columns ::
  "sorter \<Rightarrow> nat \<Rightarrow> nat \<Rightarrow> int list list \<Rightarrow> nat \<Rightarrow> matrix \<times> int list \<Rightarrow> error + matrix \<times> int list" where
  "shear_recv_columns srt D P sent source st =
     (if source < P then
        (case shear_worker_column srt (sent ! (source - 1)) D of
           Inl e \<Rightarrow> Inl e
         | Inr answer \<Rightarrow>
            (let numbers = take D answer @ drop D (snd st)
             in shear_recv_columns srt D P sent (source + 1)
                  (numbers_to_column D (fst st) source numbers 0, numbers)))
      else Inr st)"
  by pat_completeness auto
termination
  by (relation "measure (\<lambda>(srt, D, P, sent, source, st). P - source)") auto

text \<open>The Controller's own column 0 (lines 259-265).\<close>

definition shear_sort_own_column :: "sorter \<Rightarrow> nat \<Rightarrow> matrix \<times> int list \<Rightarrow> error + matrix \<times> int list" where
  "shear_sort_own_column srt D st =
     (let numbers = column_to_numbers D (fst st) 0 (snd st) 0
      in case srt numbers (int D) of
           Inl e \<Rightarrow> Inl e
         | Inr numbers' \<Rightarrow> Inr (numbers_to_column D (fst st) 0 numbers' 0, numbers'))"

text \<open>The row phase of a super-step: the workers' rows, then the Controller's.\<close>

definition shear_row_phase :: "sorter \<Rightarrow> sorter \<Rightarrow> nat \<Rightarrow> nat \<Rightarrow> matrix \<Rightarrow> error + matrix" where
  "shear_row_phase srt rsrt D P M =
     (case shear_recv_rows (shear_worker_row srt rsrt) D P (shear_send_rows D P M) 1 M of
        Inl e \<Rightarrow> Inl e
      | Inr M1 \<Rightarrow> shear_sort_own_row srt D M1)"

definition shear_column_phase ::
  "sorter \<Rightarrow> nat \<Rightarrow> nat \<Rightarrow> matrix \<times> int list \<Rightarrow> error + matrix \<times> int list" where
  "shear_column_phase srt D P st =
     (case shear_recv_columns srt D P (shear_send_columns D P (fst st)) 1 st of
        Inl e \<Rightarrow> Inl e
      | Inr st1 \<Rightarrow> shear_sort_own_column srt D st1)"

text \<open>
  The loop \<^verbatim>\<open>for (program_counter = 0; program_counter < (int) ceil(log((double)
  DIMENSION) / log(2.0)); program_counter++)\<close>. Its bound is computed in floating point; it
  is the parameter \<open>steps\<close>.
\<close>

fun shear_super_steps ::
  "sorter \<Rightarrow> sorter \<Rightarrow> nat \<Rightarrow> nat \<Rightarrow> nat \<Rightarrow> matrix \<times> int list \<Rightarrow> error + matrix \<times> int list" where
  "shear_super_steps srt rsrt D P 0 st = Inr st"
| "shear_super_steps srt rsrt D P (Suc steps) st =
     (case shear_row_phase srt rsrt D P (fst st) of
        Inl e \<Rightarrow> Inl e
      | Inr M1 \<Rightarrow>
         (case shear_column_phase srt D P (M1, snd st) of
            Inl e \<Rightarrow> Inl e
          | Inr st2 \<Rightarrow> shear_super_steps srt rsrt D P steps st2))"

text \<open>The row phase after the loop (lines 271-277): only the workers' rows are exchanged.\<close>

definition shear_last_row_phase :: "sorter \<Rightarrow> nat \<Rightarrow> nat \<Rightarrow> matrix \<Rightarrow> error + matrix" where
  "shear_last_row_phase srt D P M =
     shear_recv_rows (shear_worker_last_row srt) D P (shear_send_rows D P M) 1 M"

text \<open>
  The Controller after startup, up to the end of \<^verbatim>\<open>main\<close>: the super-steps, the last row
  phase, the check, and \<^verbatim>\<open>exit(1)\<close> when it fails or \<^verbatim>\<open>return 0\<close>. The result is the
  exit code and the matrix that was checked.
\<close>

definition shear_master_with ::
  "sorter \<Rightarrow> sorter \<Rightarrow> nat \<Rightarrow> nat \<Rightarrow> nat \<Rightarrow> matrix \<Rightarrow> int list \<Rightarrow> error + int \<times> matrix" where
  "shear_master_with srt rsrt steps D P M numbers =
     (case shear_super_steps srt rsrt D P steps (M, numbers) of
        Inl e \<Rightarrow> Inl e
      | Inr st \<Rightarrow>
         (case shear_last_row_phase srt D P (fst st) of
            Inl e \<Rightarrow> Inl e
          | Inr M' \<Rightarrow> Inr (if check_sorted D M' then 0 else 1, M')))"

definition shear_master :: "nat \<Rightarrow> nat \<Rightarrow> nat \<Rightarrow> matrix \<Rightarrow> int list \<Rightarrow> error + int \<times> matrix" where
  "shear_master = shear_master_with sort_c rsort"

declare oet_master_loop.simps [code]

section \<open>Comparator networks on lists\<close>

text \<open>
  What the pair passes compute, by recursion on the list: \<open>cmpx\<close> orders the pairs at
  positions (0,1), (2,3), ... ascending and \<open>cmpx_odd\<close> the pairs at (1,2), (3,4), ...;
  \<open>cmpxr\<close> and \<open>cmpxr_odd\<close> order them descending. The proofs show that the
  loops above compute them, and argue on them.
\<close>

fun cmpx :: "'a::linorder list \<Rightarrow> 'a list" where
  "cmpx (x # y # r) = min x y # max x y # cmpx r"
| "cmpx r = r"

fun cmpx_odd :: "'a::linorder list \<Rightarrow> 'a list" where
  "cmpx_odd [] = []"
| "cmpx_odd (x # r) = x # cmpx r"

fun cmpxr :: "'a::linorder list \<Rightarrow> 'a list" where
  "cmpxr (x # y # r) = max x y # min x y # cmpxr r"
| "cmpxr r = r"

fun cmpxr_odd :: "'a::linorder list \<Rightarrow> 'a list" where
  "cmpxr_odd [] = []"
| "cmpxr_odd (x # r) = x # cmpxr r"

definition oe_pass :: "'a::linorder list \<Rightarrow> 'a list" where
  "oe_pass xs = cmpx (cmpx_odd xs)"

definition ones :: "nat \<Rightarrow> bool list \<Rightarrow> nat" where
  "ones j xs = length (filter (\<lambda>b. b) (take j xs))"

text \<open>
  For a list of truth values, \<open>ones j xs\<close> counts the \<open>True\<close> among the first \<open>j\<close>
  elements. After \<open>t\<close> passes the list obeys \<open>ones_inv t\<close>: the prefix that may hold at most
  \<open>i\<close> of them grows by one position with every pass until it has its final length.
\<close>

definition ones_inv :: "nat \<Rightarrow> bool list \<Rightarrow> bool" where
  "ones_inv t xs =
     (\<forall>i < ones (length xs) xs.
        ones (min (length xs - ones (length xs) xs + i) (2 * i + 1 + t - ones (length xs) xs)) xs \<le> i)"

section \<open>Proofs: the pair passes\<close>

declare pairs_asc.simps [simp del] pairs_desc.simps [simp del]
declare sort_inner.simps [simp del] rsort_inner.simps [simp del]
declare sort_outer.simps [simp del] rsort_outer.simps [simp del]

lemma exchange_asc_append:
  "exchange_asc (xs @ a # b # ys) (int (length xs)) = Inr (xs @ min a b # max a b # ys)"
  by (auto simp: exchange_asc_def rd_def wr_def nth_append list_update_append min_def max_def nat_add_distrib)

lemma exchange_desc_append:
  "exchange_desc (xs @ a # b # ys) (int (length xs)) = Inr (xs @ max a b # min a b # ys)"
  by (auto simp: exchange_desc_def rd_def wr_def nth_append list_update_append min_def max_def nat_add_distrib)

lemma pairs_asc_append:
  "len = int (length xs + length zs) \<Longrightarrow> i = int (length xs) \<Longrightarrow>
   pairs_asc (xs @ zs) len i = Inr (xs @ cmpx zs)"
proof (induction zs arbitrary: xs i rule: cmpx.induct)
  case (1 x y r)
  have "pairs_asc ((xs @ [min x y, max x y]) @ r) len (i + 2) = Inr ((xs @ [min x y, max x y]) @ cmpx r)"
    by (rule "1.IH") (use "1.prems" in simp_all)
  then have step: "pairs_asc (xs @ min x y # max x y # r) len (i + 2) = Inr (xs @ min x y # max x y # cmpx r)"
    by simp
  have cond: "i < len - 1" using "1.prems" by simp
  have ex: "exchange_asc (xs @ x # y # r) i = Inr (xs @ min x y # max x y # r)"
    using "1.prems" by (simp add: exchange_asc_append)
  show ?case
    by (subst pairs_asc.simps) (simp add: cond ex step)
qed (subst pairs_asc.simps, simp)+

lemma esort_eq: "esort row (int (length row)) = Inr (cmpx row)"
  using pairs_asc_append [of _ "[]" row 0] by (simp add: esort_def)

lemma osort_eq: "osort row (int (length row)) = Inr (cmpx_odd row)"
proof (cases row)
  case Nil
  then show ?thesis by (simp add: osort_def pairs_asc.simps)
next
  case (Cons x r)
  then show ?thesis using pairs_asc_append [of _ "[x]" r 1] by (simp add: osort_def)
qed

lemma pairs_desc_append:
  "len = int (length xs + length zs) \<Longrightarrow> i = int (length xs) \<Longrightarrow>
   pairs_desc (xs @ zs) len i = Inr (xs @ cmpxr zs)"
proof (induction zs arbitrary: xs i rule: cmpxr.induct)
  case (1 x y r)
  have "pairs_desc ((xs @ [max x y, min x y]) @ r) len (i + 2) = Inr ((xs @ [max x y, min x y]) @ cmpxr r)"
    by (rule "1.IH") (use "1.prems" in simp_all)
  then have step: "pairs_desc (xs @ max x y # min x y # r) len (i + 2) = Inr (xs @ max x y # min x y # cmpxr r)"
    by simp
  have cond: "i < len - 1" using "1.prems" by simp
  have ex: "exchange_desc (xs @ x # y # r) i = Inr (xs @ max x y # min x y # r)"
    using "1.prems" by (simp add: exchange_desc_append)
  show ?case
    by (subst pairs_desc.simps) (simp add: cond ex step)
qed (subst pairs_desc.simps, simp)+

lemma ersort_eq: "ersort row (int (length row)) = Inr (cmpxr row)"
  using pairs_desc_append [of _ "[]" row 0] by (simp add: ersort_def)

lemma orsort_eq: "orsort row (int (length row)) = Inr (cmpxr_odd row)"
proof (cases row)
  case Nil
  then show ?thesis by (simp add: orsort_def pairs_desc.simps)
next
  case (Cons x r)
  then show ?thesis using pairs_desc_append [of _ "[x]" r 1] by (simp add: orsort_def)
qed

lemma mset_cmpx: "mset (cmpx xs) = mset xs"
  by (induction xs rule: cmpx.induct) (auto simp: min_def max_def)

lemma mset_cmpxr: "mset (cmpxr xs) = mset xs"
  by (induction xs rule: cmpxr.induct) (auto simp: min_def max_def)

lemma mset_cmpx_odd: "mset (cmpx_odd xs) = mset xs"
  by (cases xs) (simp_all add: mset_cmpx)

lemma mset_cmpxr_odd: "mset (cmpxr_odd xs) = mset xs"
  by (cases xs) (simp_all add: mset_cmpxr)

lemma length_cmpx [simp]: "length (cmpx xs) = length xs"
  by (induction xs rule: cmpx.induct) auto

lemma length_cmpxr [simp]: "length (cmpxr xs) = length xs"
  by (induction xs rule: cmpxr.induct) auto

lemma cmpx_last: "odd (length xs) \<Longrightarrow> cmpx xs ! (length xs - 1) = xs ! (length xs - 1)"
  by (induction xs rule: cmpx.induct) (auto simp: nth_Cons')

lemma cmpxr_last: "odd (length xs) \<Longrightarrow> cmpxr xs ! (length xs - 1) = xs ! (length xs - 1)"
  by (induction xs rule: cmpxr.induct) (auto simp: nth_Cons')

lemma cmpx_odd_last: "even (length xs) \<Longrightarrow> xs \<noteq> [] \<Longrightarrow> cmpx_odd xs ! (length xs - 1) = xs ! (length xs - 1)"
  using cmpx_last [of "tl xs"] by (cases xs) (auto simp: nth_Cons')

lemma cmpxr_odd_last: "even (length xs) \<Longrightarrow> xs \<noteq> [] \<Longrightarrow> cmpxr_odd xs ! (length xs - 1) = xs ! (length xs - 1)"
  using cmpxr_last [of "tl xs"] by (cases xs) (auto simp: nth_Cons')

lemma bubble_asc_length: "bubble_asc row j = Inr row' \<Longrightarrow> length row' = length row"
  by (auto simp: bubble_asc_def rd_def wr_def split: sum.splits if_splits)

lemma bubble_desc_length: "bubble_desc row j = Inr row' \<Longrightarrow> length row' = length row"
  by (auto simp: bubble_desc_def rd_def wr_def split: sum.splits if_splits)

lemma bubble_asc_ok: "0 < j \<Longrightarrow> j < int (length row) \<Longrightarrow> \<exists>row'. bubble_asc row j = Inr row'"
  by (auto simp: bubble_asc_def rd_def wr_def split: sum.splits if_splits)

lemma bubble_desc_ok: "0 < j \<Longrightarrow> j < int (length row) \<Longrightarrow> \<exists>row'. bubble_desc row j = Inr row'"
  by (auto simp: bubble_desc_def rd_def wr_def split: sum.splits if_splits)

lemma bubble_asc_0: "bubble_asc row 0 = Inl (OutOfBounds (- 1))"
  by (simp add: bubble_asc_def rd_def)

lemma bubble_desc_0: "bubble_desc row 0 = Inl (OutOfBounds (- 1))"
  by (simp add: bubble_desc_def rd_def)

lemma sort_inner_oob:
  "0 \<le> j \<Longrightarrow> j < int (length row) \<Longrightarrow> sort_inner row j = Inl (OutOfBounds (- 1))"
proof (induction row j rule: sort_inner.induct)
  case (1 row j)
  show ?case
  proof (cases "j = 0")
    case True
    then show ?thesis by (subst sort_inner.simps) (simp add: bubble_asc_0)
  next
    case False
    with "1.prems" have j: "0 < j" by simp
    then obtain row' where r: "bubble_asc row j = Inr row'"
      using bubble_asc_ok "1.prems" by blast
    have "sort_inner row' (j - 1) = Inl (OutOfBounds (- 1))"
      using "1.IH" [of row'] r j "1.prems" bubble_asc_length [OF r] by simp
    then show ?thesis using r j by (subst sort_inner.simps) simp
  qed
qed

lemma rsort_inner_oob:
  "0 \<le> j \<Longrightarrow> j < int (length row) \<Longrightarrow> rsort_inner row j = Inl (OutOfBounds (- 1))"
proof (induction row j rule: rsort_inner.induct)
  case (1 row j)
  show ?case
  proof (cases "j = 0")
    case True
    then show ?thesis by (subst rsort_inner.simps) (simp add: bubble_desc_0)
  next
    case False
    with "1.prems" have j: "0 < j" by simp
    then obtain row' where r: "bubble_desc row j = Inr row'"
      using bubble_desc_ok "1.prems" by blast
    have "rsort_inner row' (j - 1) = Inl (OutOfBounds (- 1))"
      using "1.IH" [of row'] r j "1.prems" bubble_desc_length [OF r] by simp
    then show ?thesis using r j by (subst rsort_inner.simps) simp
  qed
qed

lemma sort_oob: "row \<noteq> [] \<Longrightarrow> sort_c row (int (length row)) = Inl (OutOfBounds (- 1))"
  unfolding sort_c_def by (subst sort_outer.simps) (simp add: sort_inner_oob)

lemma rsort_oob: "row \<noteq> [] \<Longrightarrow> rsort row (int (length row)) = Inl (OutOfBounds (- 1))"
  unfolding rsort_def by (subst rsort_outer.simps) (simp add: rsort_inner_oob)

lemma ones_0 [simp]: "ones 0 xs = 0" by (simp add: ones_def)
lemma ones_Nil [simp]: "ones j [] = 0" by (simp add: ones_def)
lemma ones_Cons: "ones (Suc j) (x # xs) = (if x then 1 else 0) + ones j xs"
  by (simp add: ones_def)

lemma ones_le: "ones j xs \<le> j"
  unfolding ones_def by (metis length_filter_le length_take min.cobounded2 order_trans)

lemma ones_le_total: "ones j xs \<le> ones (length xs) xs"
proof -
  have "length (filter (\<lambda>b. b) (take j xs @ drop j xs)) =
        length (filter (\<lambda>b. b) (take j xs)) + length (filter (\<lambda>b. b) (drop j xs))"
    by (simp only: filter_append length_append)
  then show ?thesis by (simp add: ones_def)
qed

lemma ones_Suc: "j < length xs \<Longrightarrow> ones (Suc j) xs = ones j xs + (if xs ! j then 1 else 0)"
  by (simp add: ones_def take_Suc_conv_app_nth)

lemma ones_cmpx_le: "ones j (cmpx xs) \<le> ones j xs"
proof (induction xs arbitrary: j rule: cmpx.induct)
  case (1 x y r)
  show ?case
  proof (cases j)
    case 0
    then show ?thesis by simp
  next
    case (Suc k)
    show ?thesis
    proof (cases k)
      case 0
      with Suc show ?thesis by (auto simp: ones_def min_def)
    next
      case (Suc l)
      with \<open>j = Suc k\<close> "1.IH" [of l] show ?thesis
        by (cases x; cases y) (simp_all add: ones_Cons)
    qed
  qed
qed simp_all

lemma ones_cmpx_even: "even j \<Longrightarrow> ones j (cmpx xs) = ones j xs"
proof (induction xs arbitrary: j rule: cmpx.induct)
  case (1 x y r)
  show ?case
  proof (cases j)
    case 0
    then show ?thesis by simp
  next
    case (Suc k)
    with "1.prems" obtain l where k: "k = Suc l" by (cases k) auto
    with Suc "1.prems" have "even l" by simp
    with "1.IH" [of l] Suc k show ?thesis
      by (cases x; cases y) (simp_all add: ones_Cons)
  qed
qed simp_all

lemma ones_cmpx_odd_le: "ones j (cmpx_odd xs) \<le> ones j xs"
proof (cases xs)
  case (Cons x r)
  then show ?thesis using ones_cmpx_le [of "j - 1" r] by (cases j) (simp_all add: ones_Cons)
qed simp

lemma ones_cmpx_odd_odd: "odd j \<Longrightarrow> ones j (cmpx_odd xs) = ones j xs"
proof (cases xs)
  case (Cons x r)
  assume "odd j"
  then obtain k where "j = Suc k" "even k" by (cases j) auto
  then show ?thesis using Cons ones_cmpx_even [of k r] by (simp add: ones_Cons)
qed simp

lemma ones_oe_pass_le: "ones j (oe_pass xs) \<le> ones j xs"
  unfolding oe_pass_def using ones_cmpx_le ones_cmpx_odd_le order_trans by blast

lemma cmpx_nth_even: "even k \<Longrightarrow> k < length xs \<Longrightarrow> cmpx xs ! k \<le> xs ! k"
proof (induction xs arbitrary: k rule: cmpx.induct)
  case (1 x y r)
  show ?case
  proof (cases k)
    case 0
    then show ?thesis by simp
  next
    case (Suc l)
    with "1.prems" obtain l' where "l = Suc l'" by (cases l) auto
    with Suc "1.prems" "1.IH" [of l'] show ?thesis by simp
  qed
qed simp_all

lemma cmpx_nth_odd: "odd k \<Longrightarrow> k < length xs \<Longrightarrow> xs ! k \<le> cmpx xs ! k"
proof (induction xs arbitrary: k rule: cmpx.induct)
  case (1 x y r)
  from "1.prems" obtain l where k: "k = Suc l" by (cases k) auto
  show ?case
  proof (cases l)
    case 0
    with k show ?thesis by simp
  next
    case (Suc l')
    with k "1.prems" "1.IH" [of l'] show ?thesis by simp
  qed
qed simp_all

lemma cmpx_nth_pair: "even k \<Longrightarrow> Suc k < length xs \<Longrightarrow> cmpx xs ! k = min (xs ! k) (xs ! Suc k)"
proof (induction xs arbitrary: k rule: cmpx.induct)
  case (1 x y r)
  show ?case
  proof (cases k)
    case 0
    then show ?thesis by simp
  next
    case (Suc l)
    with "1.prems" obtain l' where "l = Suc l'" by (cases l) auto
    with Suc "1.prems" "1.IH" [of l'] show ?thesis by simp
  qed
qed simp_all

lemma cmpx_odd_nth_even: "even k \<Longrightarrow> k < length xs \<Longrightarrow> xs ! k \<le> cmpx_odd xs ! k"
proof (cases xs)
  case (Cons x r)
  assume "even k" "k < length xs"
  then show ?thesis using Cons cmpx_nth_odd [of "k - 1" r] by (cases k) simp_all
qed simp

lemma cmpx_odd_nth_odd: "odd k \<Longrightarrow> k < length xs \<Longrightarrow> cmpx_odd xs ! k \<le> xs ! k"
proof (cases xs)
  case (Cons x r)
  assume "odd k" "k < length xs"
  then show ?thesis using Cons cmpx_nth_even [of "k - 1" r] by (cases k) simp_all
qed simp

lemma cmpx_odd_nth_pair:
  "odd k \<Longrightarrow> Suc k < length xs \<Longrightarrow> cmpx_odd xs ! k = min (xs ! k) (xs ! Suc k)"
proof (cases xs)
  case (Cons x r)
  assume "odd k" "Suc k < length xs"
  then show ?thesis using Cons cmpx_nth_pair [of "k - 1" r] by (cases k) simp_all
qed simp

lemma length_cmpx_odd [simp]: "length (cmpx_odd xs) = length xs"
  by (cases xs) simp_all

lemma length_oe_pass [simp]: "length (oe_pass xs) = length xs"
  by (simp add: oe_pass_def)

lemma ones_progress:
  fixes xs :: "bool list"
  assumes len: "j + 2 \<le> length xs" and a: "ones j xs \<le> i" and b: "ones (j + 2) xs \<le> i + 1"
  shows "ones (Suc j) (oe_pass xs) \<le> i"
proof (cases "ones (Suc j) xs \<le> i")
  case True
  then show ?thesis using ones_oe_pass_le [of "Suc j" xs] by simp
next
  case False
  have s1: "ones (Suc j) xs = ones j xs + (if xs ! j then 1 else 0)"
    using len by (simp add: ones_Suc)
  have s2: "ones (j + 2) xs = ones (Suc j) xs + (if xs ! Suc j then 1 else 0)"
    using len by (simp add: ones_Suc)
  from False s1 a have xj: "xs ! j" and oj: "ones j xs = i" by (auto split: if_splits)
  from False s2 b have xj1: "\<not> xs ! Suc j" by (auto split: if_splits)
  let ?ys = "cmpx_odd xs"
  show ?thesis
  proof (cases "even j")
    case True
    have yj1: "\<not> ?ys ! Suc j"
      using cmpx_odd_nth_odd [of "Suc j" xs] True len xj1 by auto
    have "ones (Suc j) (cmpx ?ys) = ones j (cmpx ?ys) + (if cmpx ?ys ! j then 1 else 0)"
      using len by (simp add: ones_Suc)
    moreover have "cmpx ?ys ! j = min (?ys ! j) (?ys ! Suc j)"
      using cmpx_nth_pair [of j ?ys] True len by simp
    moreover have "ones j (cmpx ?ys) = ones j ?ys" using True by (rule ones_cmpx_even)
    moreover have "ones j ?ys \<le> ones j xs" by (rule ones_cmpx_odd_le)
    ultimately show ?thesis using yj1 oj by (simp add: oe_pass_def min_def)
  next
    case False
    have "ones (Suc j) ?ys = ones j ?ys + (if ?ys ! j then 1 else 0)"
      using len by (simp add: ones_Suc)
    moreover have "?ys ! j = min (xs ! j) (xs ! Suc j)"
      using cmpx_odd_nth_pair [of j xs] False len by simp
    moreover have "ones j ?ys = ones j xs" using False by (rule ones_cmpx_odd_odd)
    ultimately have "ones (Suc j) ?ys \<le> i" using xj1 oj by (simp add: min_def)
    then show ?thesis using ones_cmpx_le [of "Suc j" ?ys] by (simp add: oe_pass_def)
  qed
qed

lemma mset_oe_pass: "mset (oe_pass xs) = mset xs"
  by (simp add: oe_pass_def mset_cmpx mset_cmpx_odd)

lemma ones_total_oe_pass: "ones (length xs) (oe_pass xs) = ones (length xs) xs"
proof -
  have "mset (filter (\<lambda>b. b) (oe_pass xs)) = mset (filter (\<lambda>b. b) xs)"
    by (simp add: mset_oe_pass)
  then have "length (filter (\<lambda>b. b) (oe_pass xs)) = length (filter (\<lambda>b. b) xs)"
    by (rule mset_eq_length)
  then show ?thesis by (simp add: ones_def)
qed

lemma bound_advance:
  fixes n m i t :: nat
  assumes "min (n - m + i) (2 * i + 1 + Suc t - m) \<noteq> min (n - m + i) (2 * i + 1 + t - m)"
  shows "min (n - m + i) (2 * i + 1 + Suc t - m) = Suc (min (n - m + i) (2 * i + 1 + t - m))"
    and "min (n - m + i) (2 * i + 1 + t - m) < n - m + i"
    and "min (n - m + i) (2 * i + 1 + t - m) = 2 * i + 1 + t - m"
    and "m \<le> 2 * i + 1 + t"
  using assms by arith+

lemma bound_next:
  fixes n m i t :: nat
  assumes "2 * i + 1 + t - m < n - m + i" and "m \<le> 2 * i + 1 + t"
  shows "min (n - m + Suc i) (2 * Suc i + 1 + t - m) = (2 * i + 1 + t - m) + 2"
  using assms by arith

lemma bound_room:
  fixes n m i j :: nat
  assumes "j < n - m + i" "i < m" "m \<le> n"
  shows "j + 2 \<le> n"
  using assms by arith

lemma bound_final:
  fixes n m t :: nat
  assumes "n \<le> t" "m \<le> n"
  shows "min (n - m + 0) (2 * 0 + 1 + t - m) = n - m"
  using assms by arith

lemma ones_inv_0: "ones_inv 0 xs"
  unfolding ones_inv_def
proof (intro allI impI)
  fix i assume i: "i < ones (length xs) xs"
  let ?j = "min (length xs - ones (length xs) xs + i) (2 * i + 1 + 0 - ones (length xs) xs)"
  have "?j \<le> i" using i by simp
  with ones_le [of ?j xs] show "ones ?j xs \<le> i" by (rule order_trans)
qed

lemma ones_inv_step:
  assumes inv: "ones_inv t xs"
  shows "ones_inv (Suc t) (oe_pass xs)"
  unfolding ones_inv_def
proof (intro allI impI)
  let ?n = "length xs" and ?m = "ones (length xs) xs"
  fix i assume "i < ones (length (oe_pass xs)) (oe_pass xs)"
  then have i: "i < ?m" by (simp add: ones_total_oe_pass)
  have mn: "?m \<le> ?n" by (rule ones_le)
  let ?j = "min (?n - ?m + i) (2 * i + 1 + t - ?m)"
  let ?j' = "min (?n - ?m + i) (2 * i + 1 + Suc t - ?m)"
  have hj: "ones ?j xs \<le> i" using inv i by (simp add: ones_inv_def)
  have goal: "ones ?j' (oe_pass xs) \<le> i"
  proof (cases "?j' = ?j")
    case True
    have "ones ?j (oe_pass xs) \<le> ones ?j xs" by (rule ones_oe_pass_le)
    then have "ones ?j (oe_pass xs) \<le> i" using hj by (rule order_trans)
    then show ?thesis by (simp only: True)
  next
    case False
    note adv = bound_advance [OF False]
    have j': "?j' = Suc ?j" by (rule adv(1))
    have lt: "?j < ?n - ?m + i" by (rule adv(2))
    have eq: "?j = 2 * i + 1 + t - ?m" by (rule adv(3))
    have pos: "?m \<le> 2 * i + 1 + t" by (rule adv(4))
    have len: "?j + 2 \<le> ?n" using lt i mn by (rule bound_room)
    have b: "ones (?j + 2) xs \<le> i + 1"
    proof (cases "Suc i < ?m")
      case True
      with inv have "ones (min (?n - ?m + Suc i) (2 * Suc i + 1 + t - ?m)) xs \<le> Suc i"
        unfolding ones_inv_def by blast
      moreover have "min (?n - ?m + Suc i) (2 * Suc i + 1 + t - ?m) = ?j + 2"
        using bound_next [of i t ?m ?n] lt eq pos by (simp only:)
      ultimately show ?thesis by (simp only: Suc_eq_plus1)
    next
      case False
      with i have "?m = i + 1" by simp
      then show ?thesis using ones_le_total [of "?j + 2" xs] by simp
    qed
    have "ones (Suc ?j) (oe_pass xs) \<le> i" using len hj b by (rule ones_progress)
    then show ?thesis by (simp only: j')
  qed
  then show "ones (min (length (oe_pass xs) - ones (length (oe_pass xs)) (oe_pass xs) + i)
               (2 * i + 1 + Suc t - ones (length (oe_pass xs)) (oe_pass xs))) (oe_pass xs) \<le> i"
    by (simp add: ones_total_oe_pass)
qed

lemma length_funpow_oe_pass [simp]: "length ((oe_pass ^^ t) xs) = length xs"
  by (induction t) simp_all

lemma ones_inv_funpow: "ones_inv t ((oe_pass ^^ t) xs)"
proof (induction t)
  case 0
  show ?case by (simp add: ones_inv_0)
next
  case (Suc t)
  then show ?case using ones_inv_step [of t "(oe_pass ^^ t) xs"] by simp
qed

lemma sorted_const: "\<forall>x \<in> set xs. x = c \<Longrightarrow> sorted xs"
  by (induction xs) auto

lemma filter_full: "length (filter P xs) = length xs \<Longrightarrow> \<forall>x \<in> set xs. P x"
proof (rule ccontr)
  assume a: "length (filter P xs) = length xs" and "\<not> (\<forall>x \<in> set xs. P x)"
  then obtain x where "x \<in> set xs" "\<not> P x" by blast
  then have "length (filter P xs) < length xs" by (rule length_filter_less)
  with a show False by simp
qed

lemma ones_inv_sorted:
  assumes inv: "ones_inv t xs" and t: "length xs \<le> t"
  shows "sorted xs"
proof -
  let ?n = "length xs" and ?m = "ones (length xs) xs"
  let ?z = "?n - ?m"
  have mn: "?m \<le> ?n" by (rule ones_le)
  have z0: "ones ?z xs = 0"
  proof (cases "?m = 0")
    case True
    then show ?thesis by simp
  next
    case False
    then have "ones (min (?z + 0) (2 * 0 + 1 + t - ?m)) xs \<le> 0"
      using inv unfolding ones_inv_def by blast
    moreover have "min (?z + 0) (2 * 0 + 1 + t - ?m) = ?z" using t mn by (rule bound_final)
    ultimately show ?thesis by (simp only: le_zero_eq)
  qed
  then have lo: "\<forall>x \<in> set (take ?z xs). x = False"
    by (auto simp: ones_def filter_empty_conv)
  have "length (filter (\<lambda>b. b) (take ?z xs @ drop ?z xs)) =
        length (filter (\<lambda>b. b) (take ?z xs)) + length (filter (\<lambda>b. b) (drop ?z xs))"
    by (simp only: filter_append length_append)
  then have "length (filter (\<lambda>b. b) (drop ?z xs)) = ?m"
    using z0 by (simp add: ones_def)
  then have "length (filter (\<lambda>b. b) (drop ?z xs)) = length (drop ?z xs)"
    using mn by simp
  then have hi: "\<forall>x \<in> set (drop ?z xs). x = True"
    using filter_full [of "\<lambda>b. b" "drop ?z xs"] by simp
  have "sorted (take ?z xs @ drop ?z xs)"
    unfolding sorted_append using lo hi sorted_const [of "take ?z xs" False] sorted_const [of "drop ?z xs" True]
    by auto
  then show ?thesis by simp
qed

lemma oe_pass_sorts_bool:
  fixes xs :: "bool list"
  shows "length xs \<le> t \<Longrightarrow> sorted ((oe_pass ^^ t) xs)"
  using ones_inv_sorted [OF ones_inv_funpow [of t xs]] by simp

lemma map_cmpx: "mono f \<Longrightarrow> map f (cmpx xs) = cmpx (map f xs)"
  by (induction xs rule: cmpx.induct) (simp_all add: min_of_mono max_of_mono)

lemma map_cmpx_odd: "mono f \<Longrightarrow> map f (cmpx_odd xs) = cmpx_odd (map f xs)"
  by (cases xs) (simp_all add: map_cmpx)

lemma map_oe_pass: "mono f \<Longrightarrow> map f (oe_pass xs) = oe_pass (map f xs)"
  by (simp add: oe_pass_def map_cmpx map_cmpx_odd)

lemma map_funpow_oe_pass: "mono f \<Longrightarrow> map f ((oe_pass ^^ t) xs) = (oe_pass ^^ t) (map f xs)"
  by (induction t) (simp_all add: map_oe_pass)

lemma oe_pass_sorts:
  fixes xs :: "int list"
  assumes t: "length xs \<le> t"
  shows "sorted ((oe_pass ^^ t) xs)"
proof (rule ccontr)
  let ?ys = "(oe_pass ^^ t) xs"
  assume "\<not> sorted ?ys"
  then obtain i where i: "Suc i < length ?ys" and gt: "?ys ! Suc i < ?ys ! i"
    by (auto simp: sorted_iff_nth_Suc not_le)
  let ?f = "\<lambda>x. ?ys ! Suc i < x"
  have m: "mono ?f" by (rule monoI) auto
  have "sorted ((oe_pass ^^ t) (map ?f xs))"
    by (rule oe_pass_sorts_bool) (simp add: t)
  then have "sorted (map ?f ?ys)" using map_funpow_oe_pass [OF m, of t xs] by simp
  then have "map ?f ?ys ! i \<le> map ?f ?ys ! Suc i"
    using i by (simp add: sorted_iff_nth_Suc del: nth_map)
  then show False using i gt by simp
qed

lemma cmpx_odd_hd: "xs \<noteq> [] \<Longrightarrow> cmpx_odd xs ! 0 = xs ! 0"
  by (cases xs) simp_all

lemma cmpxr_odd_hd: "xs \<noteq> [] \<Longrightarrow> cmpxr_odd xs ! 0 = xs ! 0"
  by (cases xs) simp_all

lemma length_cmpxr_odd [simp]: "length (cmpxr_odd xs) = length xs"
  by (cases xs) simp_all

lemma odd_even_pass_eq: "odd_even_pass row (int (length row)) = Inr (oe_pass row)"
  using esort_eq [of "cmpx_odd row"] by (simp add: odd_even_pass_def osort_eq oe_pass_def)

lemma odd_even_passes_eq: "odd_even_passes k row (int (length row)) = Inr ((oe_pass ^^ k) row)"
proof (induction k arbitrary: row)
  case 0
  show ?case by simp
next
  case (Suc k)
  have "odd_even_passes k (oe_pass row) (int (length (oe_pass row))) = Inr ((oe_pass ^^ k) (oe_pass row))"
    by (rule Suc.IH)
  then show ?case by (simp add: odd_even_pass_eq funpow_swap1)
qed

lemma mset_funpow_oe_pass: "mset ((oe_pass ^^ k) xs) = mset xs"
  by (induction k) (simp_all add: mset_oe_pass)

section \<open>The claims about the sorting routines\<close>

text \<open>
  C2. For every integer sequence of length L, the odd-even pass (\<^verbatim>\<open>osort\<close>, then
  \<^verbatim>\<open>esort\<close>) applied at least L times yields a non-decreasing sequence; no access leaves
  the array, and the result is a rearrangement of the input.
\<close>

theorem odd_even_passes_sort:
  assumes "length row \<le> k"
  shows "\<exists>res. odd_even_passes k row (int (length row)) = Inr res \<and> sorted res \<and> mset res = mset row"
  using assms by (simp add: odd_even_passes_eq oe_pass_sorts mset_funpow_oe_pass)

theorem odd_even_passes_sort_witness:
  "length [3, 2, 1 :: int] \<le> 3 \<and>
   (\<exists>res. odd_even_passes 3 [3, 2, 1] 3 = Inr res \<and> sorted res \<and> mset res = mset [3, 2, 1])"
  using odd_even_passes_sort [of "[3, 2, 1]" 3] by simp

text \<open>
  C4. A call of \<^verbatim>\<open>sort\<close> should leave the sequence non-decreasing. On the sequence
  5, 3, 1, 4, 2 of the specification the call reads \<^verbatim>\<open>row[-1]\<close> and yields no sequence.
\<close>

theorem sort_fails_on_example: "sort_c [5, 3, 1, 4, 2] 5 = Inl (OutOfBounds (- 1))"
  using sort_oob [of "[5, 3, 1, 4, 2]"] by simp

text \<open>
  C5. On every sequence of length at least 1, the inner loops of \<^verbatim>\<open>sort\<close> and \<^verbatim>\<open>rsort\<close>
  reach \<open>j = 0\<close> and read \<^verbatim>\<open>row[j-1]\<close>, the index -1 outside the sequence.
\<close>

theorem sort_reads_before_the_array:
  assumes "row \<noteq> []"
  shows "sort_c row (int (length row)) = Inl (OutOfBounds (- 1)) \<and>
         rsort row (int (length row)) = Inl (OutOfBounds (- 1))"
  using assms by (simp add: sort_oob rsort_oob)

theorem sort_reads_before_the_array_witness:
  "[5, 3, 1, 4, 2 :: int] \<noteq> [] \<and> sort_c [5, 3, 1, 4, 2] 5 = Inl (OutOfBounds (- 1)) \<and>
   rsort [5, 3, 1, 4, 2] 5 = Inl (OutOfBounds (- 1))"
  using sort_reads_before_the_array [of "[5, 3, 1, 4, 2]"] by simp

text \<open>
  C10. Each of \<^verbatim>\<open>esort\<close>, \<^verbatim>\<open>ersort\<close>, \<^verbatim>\<open>osort\<close> and \<^verbatim>\<open>orsort\<close> returns a permutation of
  its input of the same length, and the elements outside every compared pair stay where
  they are: the last element of a sequence of odd length for \<^verbatim>\<open>esort\<close> and \<^verbatim>\<open>ersort\<close>, the
  first element and the last element of a sequence of even length for \<^verbatim>\<open>osort\<close> and
  \<^verbatim>\<open>orsort\<close>.
\<close>

theorem pair_passes_permute:
  "(\<exists>res. esort row (int (length row)) = Inr res \<and> mset res = mset row \<and> length res = length row \<and>
      (odd (length row) \<longrightarrow> res ! (length row - 1) = row ! (length row - 1))) \<and>
   (\<exists>res. ersort row (int (length row)) = Inr res \<and> mset res = mset row \<and> length res = length row \<and>
      (odd (length row) \<longrightarrow> res ! (length row - 1) = row ! (length row - 1))) \<and>
   (\<exists>res. osort row (int (length row)) = Inr res \<and> mset res = mset row \<and> length res = length row \<and>
      (row \<noteq> [] \<longrightarrow> res ! 0 = row ! 0) \<and>
      (even (length row) \<and> row \<noteq> [] \<longrightarrow> res ! (length row - 1) = row ! (length row - 1))) \<and>
   (\<exists>res. orsort row (int (length row)) = Inr res \<and> mset res = mset row \<and> length res = length row \<and>
      (row \<noteq> [] \<longrightarrow> res ! 0 = row ! 0) \<and>
      (even (length row) \<and> row \<noteq> [] \<longrightarrow> res ! (length row - 1) = row ! (length row - 1)))"
proof (intro conjI)
  show "\<exists>res. esort row (int (length row)) = Inr res \<and> mset res = mset row \<and> length res = length row \<and>
      (odd (length row) \<longrightarrow> res ! (length row - 1) = row ! (length row - 1))"
    using cmpx_last [of row] by (simp add: esort_eq mset_cmpx)
  show "\<exists>res. ersort row (int (length row)) = Inr res \<and> mset res = mset row \<and> length res = length row \<and>
      (odd (length row) \<longrightarrow> res ! (length row - 1) = row ! (length row - 1))"
    using cmpxr_last [of row] by (simp add: ersort_eq mset_cmpxr)
  show "\<exists>res. osort row (int (length row)) = Inr res \<and> mset res = mset row \<and> length res = length row \<and>
      (row \<noteq> [] \<longrightarrow> res ! 0 = row ! 0) \<and>
      (even (length row) \<and> row \<noteq> [] \<longrightarrow> res ! (length row - 1) = row ! (length row - 1))"
    unfolding osort_eq using cmpx_odd_last [of row] cmpx_odd_hd [of row]
    by (simp add: mset_cmpx_odd)
  show "\<exists>res. orsort row (int (length row)) = Inr res \<and> mset res = mset row \<and> length res = length row \<and>
      (row \<noteq> [] \<longrightarrow> res ! 0 = row ! 0) \<and>
      (even (length row) \<and> row \<noteq> [] \<longrightarrow> res ! (length row - 1) = row ! (length row - 1))"
    unfolding orsort_eq using cmpxr_odd_last [of row] cmpxr_odd_hd [of row]
    by (simp add: mset_cmpxr_odd)
qed

theorem pair_passes_permute_witness:
  "odd (length [3, 1, 2 :: int]) \<and> even (length [4, 3, 2, 1 :: int]) \<and>
   (\<exists>res. esort [3, 1, 2] 3 = Inr res \<and> mset res = mset [3, 1, 2] \<and>
      res ! (length [3, 1, 2 :: int] - 1) = 2) \<and>
   (\<exists>res. ersort [3, 1, 2] 3 = Inr res \<and> mset res = mset [3, 1, 2] \<and>
      res ! (length [3, 1, 2 :: int] - 1) = 2) \<and>
   (\<exists>res. osort [4, 3, 2, 1] 4 = Inr res \<and> mset res = mset [4, 3, 2, 1] \<and>
      res ! 0 = 4 \<and> res ! (length [4, 3, 2, 1 :: int] - 1) = 1) \<and>
   (\<exists>res. orsort [4, 3, 2, 1] 4 = Inr res \<and> mset res = mset [4, 3, 2, 1] \<and>
      res ! 0 = 4 \<and> res ! (length [4, 3, 2, 1 :: int] - 1) = 1)"
proof -
  note odd_case = pair_passes_permute [of "[3, 1, 2]"]
  note even_case = pair_passes_permute [of "[4, 3, 2, 1]"]
  have "\<exists>res. esort [3, 1, 2] 3 = Inr res \<and> mset res = mset [3, 1, 2] \<and>
      res ! (length [3, 1, 2 :: int] - 1) = 2"
    using odd_case [THEN conjunct1] by auto
  moreover have "\<exists>res. ersort [3, 1, 2] 3 = Inr res \<and> mset res = mset [3, 1, 2] \<and>
      res ! (length [3, 1, 2 :: int] - 1) = 2"
    using odd_case [THEN conjunct2, THEN conjunct1] by auto
  moreover have "\<exists>res. osort [4, 3, 2, 1] 4 = Inr res \<and> mset res = mset [4, 3, 2, 1] \<and>
      res ! 0 = 4 \<and> res ! (length [4, 3, 2, 1 :: int] - 1) = 1"
    using even_case [THEN conjunct2, THEN conjunct2, THEN conjunct1] by auto
  moreover have "\<exists>res. orsort [4, 3, 2, 1] 4 = Inr res \<and> mset res = mset [4, 3, 2, 1] \<and>
      res ! 0 = 4 \<and> res ! (length [4, 3, 2, 1 :: int] - 1) = 1"
    using even_case [THEN conjunct2, THEN conjunct2, THEN conjunct2] by auto
  ultimately show ?thesis by simp
qed

section \<open>Proofs: the convergence check\<close>

declare walk_lower.simps [simp del] walk_upper.simps [simp del]
declare scan_lower.simps [simp del] scan_upper.simps [simp del]

lemma all_nat_shift: "(\<forall>k. P (k::nat)) = (P 0 \<and> (\<forall>k. P (Suc k)))"
  by (metis nat.exhaust)

lemma all_from_split: "(\<forall>i'. (i::nat) \<le> i' \<longrightarrow> Q i') = (Q i \<and> (\<forall>i'. i + 1 \<le> i' \<longrightarrow> Q i'))"
proof
  assume a: "\<forall>i'. i \<le> i' \<longrightarrow> Q i'"
  then show "Q i \<and> (\<forall>i'. i + 1 \<le> i' \<longrightarrow> Q i')" by simp
next
  assume b: "Q i \<and> (\<forall>i'. i + 1 \<le> i' \<longrightarrow> Q i')"
  show "\<forall>i'. i \<le> i' \<longrightarrow> Q i'"
  proof (intro allI impI)
    fix i' assume "i \<le> i'"
    then have "i = i' \<or> i + 1 \<le> i'" by linarith
    with b show "Q i'" by blast
  qed
qed

lemma walk_lower_eq:
  "walk_lower D M r c s = (s \<and> (\<forall>k. r + k < D - 1 \<longrightarrow> diag_ok M (r + k) (c + k)))"
proof (induction D M r c s rule: walk_lower.induct)
  case (1 D M r c s)
  show ?case
  proof (cases "r < D - 1 \<and> s")
    case True
    have "walk_lower D M r c s =
          walk_lower D M (r + 1) (c + 1) (if M ! r ! c > M ! (r + 1) ! (c + 1) then False else s)"
      using True by (subst walk_lower.simps) simp
    also have "\<dots> = (diag_ok M r c \<and> (\<forall>k. r + 1 + k < D - 1 \<longrightarrow> diag_ok M (r + 1 + k) (c + 1 + k)))"
      using "1.IH" [OF True] True by (auto simp: diag_ok_def)
    also have "\<dots> = (\<forall>k. r + k < D - 1 \<longrightarrow> diag_ok M (r + k) (c + k))"
      using True by (subst (2) all_nat_shift) simp
    finally show ?thesis using True by simp
  next
    case False
    then have "walk_lower D M r c s = s" by (subst walk_lower.simps) (simp only: if_False)
    then show ?thesis using False by auto
  qed
qed

lemma walk_upper_eq:
  "walk_upper D M r c s = (s \<and> (\<forall>k. c + k < D - 1 \<longrightarrow> diag_ok M (r + k) (c + k)))"
proof (induction D M r c s rule: walk_upper.induct)
  case (1 D M r c s)
  show ?case
  proof (cases "c < D - 1 \<and> s")
    case True
    have "walk_upper D M r c s =
          walk_upper D M (r + 1) (c + 1) (if M ! r ! c > M ! (r + 1) ! (c + 1) then False else s)"
      using True by (subst walk_upper.simps) simp
    also have "\<dots> = (diag_ok M r c \<and> (\<forall>k. c + 1 + k < D - 1 \<longrightarrow> diag_ok M (r + 1 + k) (c + 1 + k)))"
      using "1.IH" [OF True] True by (auto simp: diag_ok_def)
    also have "\<dots> = (\<forall>k. c + k < D - 1 \<longrightarrow> diag_ok M (r + k) (c + k))"
      using True by (subst (2) all_nat_shift) simp
    finally show ?thesis using True by simp
  next
    case False
    then have "walk_upper D M r c s = s" by (subst walk_upper.simps) (simp only: if_False)
    then show ?thesis using False by auto
  qed
qed

lemma scan_lower_eq:
  "scan_lower D M i s =
     (s \<and> (\<forall>i'. i \<le> i' \<longrightarrow> i' < D - 1 \<longrightarrow> (\<forall>k. i' + k < D - 1 \<longrightarrow> diag_ok M (i' + k) k)))"
proof (induction D M i s rule: scan_lower.induct)
  case (1 D M i s)
  show ?case
  proof (cases "i < D - 1 \<and> s")
    case True
    have "scan_lower D M i s = scan_lower D M (i + 1) (walk_lower D M i 0 s)"
      using True by (subst scan_lower.simps) simp
    also have "\<dots> = ((\<forall>k. i + k < D - 1 \<longrightarrow> diag_ok M (i + k) k) \<and>
        (\<forall>i'. i + 1 \<le> i' \<longrightarrow> i' < D - 1 \<longrightarrow> (\<forall>k. i' + k < D - 1 \<longrightarrow> diag_ok M (i' + k) k)))"
      using "1.IH" [OF True] True by (simp add: walk_lower_eq)
    also have "\<dots> = (\<forall>i'. i \<le> i' \<longrightarrow> i' < D - 1 \<longrightarrow> (\<forall>k. i' + k < D - 1 \<longrightarrow> diag_ok M (i' + k) k))"
      using True by (subst (2) all_from_split) simp
    finally show ?thesis using True by simp
  next
    case False
    then have "scan_lower D M i s = s" by (subst scan_lower.simps) (simp only: if_False)
    then show ?thesis using False by auto
  qed
qed

lemma scan_upper_eq:
  "scan_upper D M j s =
     (s \<and> (\<forall>j'. j \<le> j' \<longrightarrow> j' < D - 1 \<longrightarrow> (\<forall>k. j' + k < D - 1 \<longrightarrow> diag_ok M k (j' + k))))"
proof (induction D M j s rule: scan_upper.induct)
  case (1 D M j s)
  show ?case
  proof (cases "j < D - 1 \<and> s")
    case True
    have "scan_upper D M j s = scan_upper D M (j + 1) (walk_upper D M 0 j s)"
      using True by (subst scan_upper.simps) simp
    also have "\<dots> = ((\<forall>k. j + k < D - 1 \<longrightarrow> diag_ok M k (j + k)) \<and>
        (\<forall>j'. j + 1 \<le> j' \<longrightarrow> j' < D - 1 \<longrightarrow> (\<forall>k. j' + k < D - 1 \<longrightarrow> diag_ok M k (j' + k))))"
      using "1.IH" [OF True] True by (simp add: walk_upper_eq)
    also have "\<dots> = (\<forall>j'. j \<le> j' \<longrightarrow> j' < D - 1 \<longrightarrow> (\<forall>k. j' + k < D - 1 \<longrightarrow> diag_ok M k (j' + k)))"
      using True by (subst (2) all_from_split) simp
    finally show ?thesis using True by simp
  next
    case False
    then have "scan_upper D M j s = s" by (subst scan_upper.simps) (simp only: if_False)
    then show ?thesis using False by auto
  qed
qed

lemma check_sorted_iff:
  "check_sorted D M = (\<forall>r c. r < D - 1 \<and> c < D - 1 \<longrightarrow> diag_ok M r c)"
proof
  assume chk: "check_sorted D M"
  then have lower: "\<And>i k. i < D - 1 \<Longrightarrow> i + k < D - 1 \<Longrightarrow> diag_ok M (i + k) k"
    and upper: "\<And>j k. j < D - 1 \<Longrightarrow> j + k < D - 1 \<Longrightarrow> diag_ok M k (j + k)"
    by (simp_all add: check_sorted_def scan_upper_eq scan_lower_eq)
  show "\<forall>r c. r < D - 1 \<and> c < D - 1 \<longrightarrow> diag_ok M r c"
  proof (intro allI impI)
    fix r c assume rc: "r < D - 1 \<and> c < D - 1"
    show "diag_ok M r c"
    proof (cases "c \<le> r")
      case True
      moreover have "r - c < D - 1" using rc by linarith
      ultimately show ?thesis using lower [of "r - c" c] rc by simp
    next
      case False
      moreover have "c - r < D - 1" using rc by linarith
      ultimately show ?thesis using upper [of "c - r" r] rc by simp
    qed
  qed
next
  assume "\<forall>r c. r < D - 1 \<and> c < D - 1 \<longrightarrow> diag_ok M r c"
  then show "check_sorted D M"
    by (simp add: check_sorted_def scan_upper_eq scan_lower_eq)
qed

lemma snake_order_iff:
  "snake_order D M = (\<forall>r c. r < D - 1 \<and> c < D - 1 \<longrightarrow> diag_ok M r c)"
  unfolding snake_order_def diag_ok_def by (auto simp: less_diff_conv)

text \<open>
  C1. The convergence check returns true if and only if the matrix is in snake order:
  every cell \<open>(r, c)\<close> with \<open>(r + 1, c + 1)\<close> inside the matrix is at most that cell.
\<close>

theorem check_sorted_snake_order: "check_sorted D M \<longleftrightarrow> snake_order D M"
  by (simp add: check_sorted_iff snake_order_iff)

theorem check_sorted_snake_order_witness:
  "check_sorted 3 [[1, 2, 3], [1, 2, 3], [1, 2, 3]] \<and> snake_order 3 [[1, 2, 3], [1, 2, 3], [1, 2, 3]] \<and>
   \<not> check_sorted 3 [[1, 1, 2], [3, 2, 3], [1, 2, 3]] \<and> \<not> snake_order 3 [[1, 1, 2], [3, 2, 3], [1, 2, 3]]"
proof -
  have a: "check_sorted 3 [[1, 2, 3], [1, 2, 3], [1, 2, 3]]" by code_simp
  have b: "\<not> check_sorted 3 [[1, 1, 2], [3, 2, 3], [1, 2, 3]]" by code_simp
  show ?thesis
    using a b check_sorted_snake_order [of 3 "[[1, 2, 3], [1, 2, 3], [1, 2, 3]]"]
      check_sorted_snake_order [of 3 "[[1, 1, 2], [3, 2, 3], [1, 2, 3]]"] by simp
qed

section \<open>Proofs: bands\<close>

declare column_to_numbers.simps [simp del] numbers_to_column.simps [simp del]

lemma extract_row_eq: "length (M ! r) = D \<Longrightarrow> extract_row D M r = M ! r"
  unfolding extract_row_def by (metis map_nth)

lemma wf_matrix_row: "wf_matrix D M \<Longrightarrow> r < D \<Longrightarrow> length (M ! r) = D"
  by (simp add: wf_matrix_def)

lemma deposit_row_same: "r < length M \<Longrightarrow> deposit_row D M r (M ! r) = M"
  by (simp add: deposit_row_def)

lemma deposit_row_full: "length band = D \<Longrightarrow> length (M ! r) = D \<Longrightarrow> deposit_row D M r band = M[r := band]"
  by (simp add: deposit_row_def)

lemma column_to_numbers_eq:
  "i \<le> D \<Longrightarrow> length numbers = D \<Longrightarrow>
   column_to_numbers D M c numbers i = take i numbers @ map (\<lambda>k. M ! k ! c) [i..<D]"
proof (induction D M c numbers i rule: column_to_numbers.induct)
  case (1 D M c numbers i)
  show ?case
  proof (cases "i < D")
    case True
    have "column_to_numbers D M c numbers i = column_to_numbers D M c (numbers[i := M ! i ! c]) (i + 1)"
      using True by (subst column_to_numbers.simps) simp
    also have "\<dots> = take (i + 1) (numbers[i := M ! i ! c]) @ map (\<lambda>k. M ! k ! c) [i + 1..<D]"
      using "1.IH" [OF True] True "1.prems" by simp
    also have "\<dots> = take i numbers @ map (\<lambda>k. M ! k ! c) [i..<D]"
      using True "1.prems" by (simp add: take_Suc_conv_app_nth upt_conv_Cons)
    finally show ?thesis .
  next
    case False
    with "1.prems" have "i = D" by simp
    then show ?thesis using "1.prems" by (subst column_to_numbers.simps) simp
  qed
qed

lemma column_to_numbers_extract:
  "length numbers = D \<Longrightarrow> column_to_numbers D M c numbers 0 = extract_column D M c"
  by (simp add: column_to_numbers_eq extract_column_def)

lemma numbers_to_column_same:
  "\<forall>k. i \<le> k \<and> k < D \<longrightarrow> k < length M \<and> numbers ! k = M ! k ! c \<Longrightarrow>
   numbers_to_column D M c numbers i = M"
proof (induction D M c numbers i rule: numbers_to_column.induct)
  case (1 D M c numbers i)
  show ?case
  proof (cases "i < D")
    case True
    with "1.prems" have "M[i := (M ! i)[c := numbers ! i]] = M" by simp
    then have "numbers_to_column D M c numbers i = numbers_to_column D M c numbers (i + 1)"
      using True by (subst numbers_to_column.simps) simp
    also have "\<dots> = M"
      using "1.IH" [OF True] \<open>M[i := (M ! i)[c := numbers ! i]] = M\<close> "1.prems" by simp
    finally show ?thesis .
  next
    case False
    then show ?thesis by (subst numbers_to_column.simps) simp
  qed
qed

lemma extract_column_nth: "k < D \<Longrightarrow> extract_column D M c ! k = M ! k ! c"
  by (simp add: extract_column_def)

lemma deposit_extract_column:
  "length M = D \<Longrightarrow> deposit_column D M c (extract_column D M c) = M"
  unfolding deposit_column_def
  by (rule numbers_to_column_same) (simp add: extract_column_nth)

text \<open>
  C6. Without a sort in between, depositing what was extracted leaves the matrix as it
  was, for every row and every column of a \<open>D \<times> D\<close> matrix, through the strided column
  type as well as through the buffer \<^verbatim>\<open>numbers\<close>; the band has length \<open>D\<close>.
\<close>

theorem extract_deposit_round_trip:
  assumes "wf_matrix D M" and "r < D" and "c < D" and "length numbers = D"
  shows "deposit_row D M r (extract_row D M r) = M \<and> length (extract_row D M r) = D \<and>
         deposit_column D M c (extract_column D M c) = M \<and> length (extract_column D M c) = D \<and>
         numbers_to_column D M c (column_to_numbers D M c numbers 0) 0 = M \<and>
         length (column_to_numbers D M c numbers 0) = D"
proof -
  have len: "length M = D" using assms(1) by (simp add: wf_matrix_def)
  have row: "extract_row D M r = M ! r"
    using assms(1,2) by (simp add: extract_row_eq wf_matrix_row)
  have "deposit_row D M r (extract_row D M r) = M"
    using row len assms(2) by (simp add: deposit_row_same)
  moreover have "length (extract_row D M r) = D" by (simp add: extract_row_def)
  moreover have col: "deposit_column D M c (extract_column D M c) = M"
    using len by (rule deposit_extract_column)
  moreover have "length (extract_column D M c) = D" by (simp add: extract_column_def)
  moreover have "numbers_to_column D M c (column_to_numbers D M c numbers 0) 0 = M"
    using col assms(4) by (simp add: column_to_numbers_extract deposit_column_def)
  moreover have "length (column_to_numbers D M c numbers 0) = D"
    using assms(4) by (simp add: column_to_numbers_extract extract_column_def)
  ultimately show ?thesis by simp
qed

theorem extract_deposit_round_trip_witness:
  "wf_matrix 2 [[1, 2], [3, 4]] \<and> (1::nat) < 2 \<and> (0::nat) < 2 \<and> length [7, 7 :: int] = 2 \<and>
   deposit_row 2 [[1, 2], [3, 4]] 1 (extract_row 2 [[1, 2], [3, 4]] 1) = [[1, 2], [3, 4]] \<and>
   numbers_to_column 2 [[1, 2], [3, 4]] 0 (column_to_numbers 2 [[1, 2], [3, 4]] 0 [7, 7] 0) 0 = [[1, 2], [3, 4]]"
proof -
  have h: "wf_matrix 2 [[1, 2], [3, 4]]" by (simp add: wf_matrix_def)
  show ?thesis
    using h extract_deposit_round_trip [OF h, of 1 0 "[7, 7]"] by simp
qed

section \<open>Proofs: exit codes and startup\<close>

lemma oet_master_loop_checked:
  assumes "oet_master_loop D P st = Some (Inr st')"
  shows "check_sorted D (fst st')"
proof -
  let ?Q = "\<lambda>(a :: (nat \<times> nat) \<times> matrix \<times> int list) (y :: error + matrix \<times> int list).
              \<forall>st'. y = Inr st' \<longrightarrow> check_sorted (fst (fst a)) (fst st')"
  note r = oet_master_loop.raw_induct
    [where Pa = ?Q and D = D and P = P and st = st and y = "Inr st'"]
  have "?Q ((D, P), st) (Inr st')"
    apply (rule r)
     defer
     apply (rule assms)
    apply (auto split: sum.splits if_splits)
    done
  then show ?thesis by simp
qed

lemma oet_master_exit:
  assumes "oet_master D P M = Some (Inr (code, M'))"
  shows "code = 0 \<and> check_sorted D M'"
  using assms oet_master_loop_checked [of D P "(M, replicate D 0)"]
  by (auto simp: oet_master_def split: option.splits sum.splits)

lemma shear_master_exit:
  assumes "shear_master_with srt rsrt steps D P M numbers = Inr (code, M')"
  shows "code = (if check_sorted D M' then 0 else 1)"
  using assms by (auto simp: shear_master_with_def split: sum.splits)

text \<open>
  C8. A run of the transposition sort's Controller that returns has exit code 0 and a
  matrix in snake order, the loop being left only when the check holds; the shear sort's
  Controller exits with 1 when its check of the final matrix fails and with 0 only when
  that matrix is in snake order, whatever the two sorting routines compute.
\<close>

theorem exit_codes:
  "(oet_master D P M = Some (Inr (code, M')) \<longrightarrow> code = 0 \<and> snake_order D M') \<and>
   (shear_master_with srt rsrt steps D' P' N numbers = Inr (code', N') \<longrightarrow>
      (\<not> check_sorted D' N' \<longrightarrow> code' = 1) \<and> (code' = 0 \<or> code' = 1) \<and>
      (code' = 0 \<longrightarrow> snake_order D' N'))"
proof (intro conjI impI)
  assume a: "oet_master D P M = Some (Inr (code, M'))"
  from oet_master_exit [OF a] show "code = 0" by simp
  from oet_master_exit [OF a] show "snake_order D M'"
    by (simp add: check_sorted_iff snake_order_iff)
next
  assume b: "shear_master_with srt rsrt steps D' P' N numbers = Inr (code', N')"
  note c = shear_master_exit [OF b]
  show "code' = 0 \<or> code' = 1" using c by (simp split: if_splits)
  { assume "\<not> check_sorted D' N'" then show "code' = 1" using c by simp }
  { assume "code' = 0" then show "snake_order D' N'" using c
      by (simp add: check_sorted_iff snake_order_iff split: if_splits) }
qed

theorem exit_codes_witness:
  "oet_master 2 1 [[1, 2], [3, 4]] = Some (Inr (0, [[1, 2], [3, 4]])) \<and>
   snake_order 2 [[1, 2], [3, 4]] \<and>
   shear_master_with odd_even_pass odd_even_pass_desc 2 4 4
     [[9, 1, 5, 2], [3, 8, 4, 6], [7, 0, 2, 9], [1, 5, 3, 0]] [0, 0, 0, 0] =
     Inr (1, [[0, 1, 0, 2], [1, 2, 3, 4], [5, 8, 3, 5], [7, 9, 6, 9]]) \<and>
   \<not> check_sorted 4 [[0, 1, 0, 2], [1, 2, 3, 4], [5, 8, 3, 5], [7, 9, 6, 9]] \<and>
   shear_master 0 1 1 [[9]] [0] = Inr (0, [[9]]) \<and> snake_order 1 [[9]]"
proof -
  have a: "oet_master 2 1 [[1, 2], [3, 4]] = Some (Inr (0, [[1, 2], [3, 4]]))"
    by code_simp
  have b: "shear_master_with odd_even_pass odd_even_pass_desc 2 4 4
     [[9, 1, 5, 2], [3, 8, 4, 6], [7, 0, 2, 9], [1, 5, 3, 0]] [0, 0, 0, 0] =
     Inr (1, [[0, 1, 0, 2], [1, 2, 3, 4], [5, 8, 3, 5], [7, 9, 6, 9]])"
    by code_simp
  have c: "\<not> check_sorted 4 [[0, 1, 0, 2], [1, 2, 3, 4], [5, 8, 3, 5], [7, 9, 6, 9]]"
    by code_simp
  have d: "shear_master_with sort_c rsort 0 1 1 [[9]] [0] = Inr (0, [[9]])"
    by code_simp
  have "snake_order 2 [[1, 2], [3, 4]]"
    using a exit_codes [of 2 1 "[[1, 2], [3, 4]]" 0 "[[1, 2], [3, 4]]"] by simp
  moreover have "snake_order 1 [[9]]"
    using d exit_codes [of _ _ _ _ _ sort_c rsort 0 1 1 "[[9]]" "[0]" 0 "[[9]]"] by simp
  ultimately show ?thesis using a b c d by (simp add: shear_master_def)
qed

lemma size_t_of_negative:
  assumes "k < 0" and "- (2 ^ 31) \<le> k"
  shows "size_t_of_int k = nat (2 ^ 64 + k)"
proof -
  have "k mod 2 ^ 64 = (k + 2 ^ 64) mod 2 ^ 64" by simp
  also have "\<dots> = k + 2 ^ 64" using assms by (intro mod_pos_pos_trivial) simp_all
  finally show ?thesis by (simp add: size_t_of_int_def add.commute)
qed

lemma calloc_negative_count:
  assumes "k < 0" and "- (2 ^ 31) \<le> k"
  shows "calloc_returns_null heap (size_t_of_int k) 4"
proof -
  have "(2::int) ^ 64 - 2 ^ 31 \<le> 2 ^ 64 + k" using assms(2) by simp
  then have "nat (2 ^ 64 - 2 ^ 31) \<le> nat (2 ^ 64 + k)" by (rule nat_mono)
  then have "2 ^ 64 - 2 ^ 31 \<le> size_t_of_int k"
    using assms by (simp add: size_t_of_negative)
  then have "SIZE_MAX < size_t_of_int k * 4" by (simp add: SIZE_MAX_def)
  then show ?thesis by (simp add: calloc_returns_null_def)
qed

text \<open>
  Every dimension below 1 that fits a C int ends the transposition sort before its sorting
  loop with exit code 1, under one message or another.
\<close>

lemma oet_startup_nonpositive:
  assumes "dimension_arg \<le> 0" and "- (2 ^ 31) \<le> dimension_arg"
  shows "\<exists>m. oet_startup argc dimension_arg error_code NUMBER_OF_PROCESSES heap type_error_code = Exit 1 m"
proof (cases "dimension_arg = 0")
  case True
  then show ?thesis by (simp add: oet_startup_def)
next
  case False
  with assms have "calloc_returns_null heap (size_t_of_int dimension_arg) 4"
    by (intro calloc_negative_count) simp_all
  then show ?thesis by (simp add: oet_startup_def)
qed

text \<open>
  C9. The transposition sort should reject a dimension that is zero or negative as a
  validation failure. Started with the argument -4 on two processes it passes the test of
  the dimension and the test of divisibility and leaves with exit code 1 only when
  \<^verbatim>\<open>calloc\<close> has returned \<^verbatim>\<open>NULL\<close> for a count of -4, reporting a failed allocation (a
  resource error); the shear sort rejects the same argument as an invalid dimension.
\<close>

theorem oet_startup_negative_dimension:
  "oet_startup 2 (- 4) 0 2 heap 0 = Exit 1 AllocationFailed \<and>
   failure_class AllocationFailed = ResourceError \<and>
   shear_startup 2 (- 4) 0 2 0 = Exit 1 InvalidDimension \<and>
   failure_class InvalidDimension = ValidationError"
proof -
  have "calloc_returns_null heap (size_t_of_int (- 4)) 4"
    by (rule calloc_negative_count) simp_all
  then show ?thesis
    by (simp add: oet_startup_def shear_startup_def smod_int_alt_def)
qed

section \<open>Proofs: the row phases of the shear sort\<close>

declare shear_recv_rows.simps [simp del]

lemma shear_send_rows_nth:
  "1 \<le> r \<Longrightarrow> r < P \<Longrightarrow> shear_send_rows D P M ! (r - 1) = extract_row D M r"
  by (simp add: shear_send_rows_def)

lemma shear_recv_rows_char:
  assumes "shear_recv_rows worker D P sent source M = Inr M'"
    and "P \<le> length M"
    and "\<forall>r. source \<le> r \<and> r < P \<longrightarrow> length (M ! r) = D"
  shows "length M' = length M \<and>
         (\<forall>r < length M. r < source \<or> P \<le> r \<longrightarrow> M' ! r = M ! r) \<and>
         (\<forall>r. source \<le> r \<and> r < P \<longrightarrow>
            (\<exists>answer. worker r (sent ! (r - 1)) D = Inr answer \<and> M' ! r = take D answer))"
  using assms
proof (induction worker D P sent source M rule: shear_recv_rows.induct)
  case (1 worker D P sent source M)
  show ?case
  proof (cases "source < P")
    case False
    then have "M' = M" using "1.prems"(1) by (subst (asm) shear_recv_rows.simps) simp
    then show ?thesis using False by auto
  next
    case True
    then obtain answer where ans: "worker source (sent ! (source - 1)) D = Inr answer"
      and rest: "shear_recv_rows worker D P sent (source + 1) (deposit_row D M source answer) = Inr M'"
      using "1.prems"(1) by (subst (asm) shear_recv_rows.simps) (auto split: sum.splits)
    let ?M1 = "deposit_row D M source answer"
    have src: "source < length M" using True "1.prems"(2) by simp
    have M1: "?M1 = M[source := take D answer]"
      using "1.prems"(3) True by (simp add: deposit_row_def)
    have IH: "length M' = length ?M1 \<and>
         (\<forall>r < length ?M1. r < source + 1 \<or> P \<le> r \<longrightarrow> M' ! r = ?M1 ! r) \<and>
         (\<forall>r. source + 1 \<le> r \<and> r < P \<longrightarrow>
            (\<exists>answer. worker r (sent ! (r - 1)) D = Inr answer \<and> M' ! r = take D answer))"
      using "1.IH" [OF True ans rest] "1.prems"(2,3) by (simp add: M1)
    have a: "length M' = length M" using IH by (simp add: M1)
    have b: "\<forall>r < length M. r < source \<or> P \<le> r \<longrightarrow> M' ! r = M ! r"
      using IH True by (auto simp: M1)
    have c: "\<forall>r. source \<le> r \<and> r < P \<longrightarrow>
            (\<exists>answer. worker r (sent ! (r - 1)) D = Inr answer \<and> M' ! r = take D answer)"
    proof (intro allI impI)
      fix r assume r: "source \<le> r \<and> r < P"
      show "\<exists>answer. worker r (sent ! (r - 1)) D = Inr answer \<and> M' ! r = take D answer"
      proof (cases "r = source")
        case True
        have "M' ! source = ?M1 ! source" using IH src by (simp add: M1)
        then show ?thesis using True ans src by (auto simp: M1)
      next
        case False
        with r IH show ?thesis by simp
      qed
    qed
    from a b c show ?thesis by blast
  qed
qed

text \<open>
  How a row phase routes the rows, whatever the two routines compute: if the phase returns,
  the row of rank \<open>r\<close> has become what the routine of that rank returned for it, in a
  super-step the first routine for an even rank (the Controller's row 0 included) and the
  second for an odd rank, in the last row phase the first routine for every worker. (The
  shear sort has as many processes as rows, and row \<open>r\<close> belongs to rank \<open>r\<close>.)
\<close>

lemma shear_row_phases:
  assumes "wf_matrix D M"
  shows "(shear_row_phase srt rsrt D D M = Inr M' \<longrightarrow>
            (\<forall>r < D. \<exists>answer.
               (if r mod 2 = 0 then srt (M ! r) (int D) else rsrt (M ! r) (int D)) = Inr answer \<and>
               M' ! r = take D answer)) \<and>
         (shear_last_row_phase srt D D M = Inr M' \<longrightarrow>
            (\<forall>r < D. 1 \<le> r \<longrightarrow> (\<exists>answer. srt (M ! r) (int D) = Inr answer \<and> M' ! r = take D answer)))"
proof (intro conjI impI)
  have len: "length M = D" and rows: "\<forall>r < D. length (M ! r) = D"
    using assms by (simp_all add: wf_matrix_def)
  have sent: "shear_send_rows D D M ! (r - 1) = M ! r" if "1 \<le> r" "r < D" for r
    using shear_send_rows_nth [OF that, of D M] extract_row_eq [of M r D] rows that by simp
  {
    assume "shear_last_row_phase srt D D M = Inr M'"
    then have "shear_recv_rows (shear_worker_last_row srt) D D (shear_send_rows D D M) 1 M = Inr M'"
      by (simp add: shear_last_row_phase_def)
    from shear_recv_rows_char [OF this] len rows
    have "\<forall>r. 1 \<le> r \<and> r < D \<longrightarrow>
            (\<exists>answer. shear_worker_last_row srt r (shear_send_rows D D M ! (r - 1)) D = Inr answer \<and>
               M' ! r = take D answer)"
      by simp
    then show "\<forall>r < D. 1 \<le> r \<longrightarrow> (\<exists>answer. srt (M ! r) (int D) = Inr answer \<and> M' ! r = take D answer)"
      using sent by (simp add: shear_worker_last_row_def del: One_nat_def)
  }
  {
    assume "shear_row_phase srt rsrt D D M = Inr M'"
    then obtain M1 where
      rc: "shear_recv_rows (shear_worker_row srt rsrt) D D (shear_send_rows D D M) 1 M = Inr M1"
      and own: "shear_sort_own_row srt D M1 = Inr M'"
      by (auto simp: shear_row_phase_def split: sum.splits)
    from shear_recv_rows_char [OF rc] len rows
    have l1: "length M1 = D"
      and keep: "\<forall>r < D. r < 1 \<or> D \<le> r \<longrightarrow> M1 ! r = M ! r"
      and wk: "\<forall>r. 1 \<le> r \<and> r < D \<longrightarrow>
            (\<exists>answer. shear_worker_row srt rsrt r (shear_send_rows D D M ! (r - 1)) D = Inr answer \<and>
               M1 ! r = take D answer)"
      by simp_all
    from own obtain row' where
      s0: "srt (extract_row D M1 0) (int D) = Inr row'" and M': "M' = deposit_row D M1 0 row'"
      by (auto simp: shear_sort_own_row_def split: sum.splits)
    show "\<forall>r < D. \<exists>answer.
               (if r mod 2 = 0 then srt (M ! r) (int D) else rsrt (M ! r) (int D)) = Inr answer \<and>
               M' ! r = take D answer"
    proof (intro allI impI)
      fix r assume r: "r < D"
      show "\<exists>answer.
               (if r mod 2 = 0 then srt (M ! r) (int D) else rsrt (M ! r) (int D)) = Inr answer \<and>
               M' ! r = take D answer"
      proof (cases "r = 0")
        case True
        have "M1 ! 0 = M ! 0" using keep r True by simp
        then have "extract_row D M1 0 = M ! 0" using rows r True by (simp add: extract_row_eq)
        moreover have "M' ! 0 = take D row'"
          using M' l1 r \<open>M1 ! 0 = M ! 0\<close> rows True by (simp add: deposit_row_def)
        ultimately show ?thesis using s0 True by simp
      next
        case False
        then have r1: "1 \<le> r" by simp
        with wk r obtain answer where
          a: "shear_worker_row srt rsrt r (shear_send_rows D D M ! (r - 1)) D = Inr answer"
          and b: "M1 ! r = take D answer" by blast
        have c: "M' ! r = M1 ! r" using M' False by (simp add: deposit_row_def)
        have "(if r mod 2 = 0 then srt (M ! r) (int D) else rsrt (M ! r) (int D)) = Inr answer"
          using a by (simp only: sent [OF r1 r] shear_worker_row_def)
        then show ?thesis using b c by (intro exI [of _ answer]) simp
      qed
    qed
  }
qed

text \<open>
  With the program's own routines every call on a row of positive length reads the cell
  before the row, so a row phase that has a row to sort returns no matrix.
\<close>

lemma extract_row_length: "length (extract_row D M r) = D"
  by (simp add: extract_row_def)

lemma sort_c_extract_row:
  "0 < D \<Longrightarrow> sort_c (extract_row D M r) (int D) = Inl (OutOfBounds (- 1))"
proof -
  assume "0 < D"
  then have "extract_row D M r \<noteq> []" using extract_row_length [of D M r] by auto
  then show ?thesis using sort_oob [of "extract_row D M r"] by (simp add: extract_row_length)
qed

lemma rsort_extract_row:
  "0 < D \<Longrightarrow> rsort (extract_row D M r) (int D) = Inl (OutOfBounds (- 1))"
proof -
  assume "0 < D"
  then have "extract_row D M r \<noteq> []" using extract_row_length [of D M r] by auto
  then show ?thesis using rsort_oob [of "extract_row D M r"] by (simp add: extract_row_length)
qed

lemma shear_row_phase_fails:
  assumes "0 < D"
  shows "shear_row_phase sort_c rsort D P M = Inl (OutOfBounds (- 1))"
proof (cases "1 < P")
  case True
  then have "shear_send_rows D P M ! (1 - 1) = extract_row D M 1"
    by (intro shear_send_rows_nth) simp_all
  then have "shear_worker_row sort_c rsort 1 (shear_send_rows D P M ! (1 - 1)) D = Inl (OutOfBounds (- 1))"
    using assms by (simp add: shear_worker_row_def rsort_extract_row)
  then have "shear_recv_rows (shear_worker_row sort_c rsort) D P (shear_send_rows D P M) 1 M =
             Inl (OutOfBounds (- 1))"
    using True by (subst shear_recv_rows.simps) simp
  then show ?thesis by (simp add: shear_row_phase_def)
next
  case False
  then have "shear_recv_rows (shear_worker_row sort_c rsort) D P (shear_send_rows D P M) 1 M = Inr M"
    by (subst shear_recv_rows.simps) simp
  then show ?thesis
    using assms by (simp add: shear_row_phase_def shear_sort_own_row_def sort_c_extract_row)
qed

lemma shear_last_row_phase_fails:
  assumes "0 < D" and "1 < P"
  shows "shear_last_row_phase sort_c D P M = Inl (OutOfBounds (- 1))"
proof -
  have "shear_send_rows D P M ! (1 - 1) = extract_row D M 1"
    using assms(2) by (intro shear_send_rows_nth) simp_all
  then have "shear_worker_last_row sort_c 1 (shear_send_rows D P M ! (1 - 1)) D = Inl (OutOfBounds (- 1))"
    using assms(1) by (simp add: shear_worker_last_row_def sort_c_extract_row)
  then show ?thesis
    unfolding shear_last_row_phase_def using assms(2) by (subst shear_recv_rows.simps) simp
qed

lemma shear_master_fails:
  assumes "0 < D"
  shows "shear_master (Suc steps) D P M numbers = Inl (OutOfBounds (- 1))"
  using assms by (simp add: shear_master_def shear_master_with_def shear_row_phase_fails)

text \<open>
  C3. Every row phase of the shear sort should leave each rank's row sorted, ascending
  for an even rank and descending for an odd one. On the \<open>4 \<times> 4\<close> matrix of the
  specification's example, with four processes, the first row phase ends in the read of
  \<^verbatim>\<open>row[-1]\<close> and leaves no row sorted, and so does the whole run with its two
  super-steps.
\<close>

theorem shear_row_phase_sorts_no_row:
  "shear_row_phase sort_c rsort 4 4 [[9, 1, 5, 2], [3, 8, 4, 6], [7, 0, 2, 9], [1, 5, 3, 0]] =
     Inl (OutOfBounds (- 1)) \<and>
   shear_master 2 4 4 [[9, 1, 5, 2], [3, 8, 4, 6], [7, 0, 2, 9], [1, 5, 3, 0]] [0, 0, 0, 0] =
     Inl (OutOfBounds (- 1))"
  using shear_row_phase_fails [of 4 4] shear_master_fails [of 4 1 4] by (simp add: numeral_2_eq_2)

section \<open>Proofs: a super-step on an ordered matrix\<close>

declare oet_recv_rows.simps [simp del] oet_row_phase.simps [simp del]
declare oet_recv_columns.simps [simp del] oet_column_phase.simps [simp del]

lemma cmpx_sorted: "sorted xs \<Longrightarrow> cmpx xs = xs"
  by (induction xs rule: cmpx.induct) (auto simp: min_def max_def)

lemma cmpx_odd_sorted: "sorted xs \<Longrightarrow> cmpx_odd xs = xs"
  by (cases xs) (simp_all add: cmpx_sorted)

lemma cmpxr_sorted: "sorted_wrt (\<lambda>a b. b \<le> a) xs \<Longrightarrow> cmpxr xs = xs"
  by (induction xs rule: cmpxr.induct) (auto simp: min_def max_def)

lemma cmpxr_odd_sorted: "sorted_wrt (\<lambda>a b. b \<le> a) xs \<Longrightarrow> cmpxr_odd xs = xs"
  by (cases xs) (simp_all add: cmpxr_sorted)

lemma odd_even_pass_desc_eq:
  "odd_even_pass_desc row (int (length row)) = Inr (cmpxr (cmpxr_odd row))"
  using ersort_eq [of "cmpxr_odd row"] by (simp add: odd_even_pass_desc_def orsort_eq)

lemma odd_even_pass_sorted:
  "length row = D \<Longrightarrow> sorted row \<Longrightarrow> odd_even_pass row (int D) = Inr row"
  using odd_even_pass_eq [of row] by (simp add: oe_pass_def cmpx_sorted cmpx_odd_sorted)

lemma odd_even_pass_desc_sorted:
  "length row = D \<Longrightarrow> sorted (rev row) \<Longrightarrow> odd_even_pass_desc row (int D) = Inr row"
proof -
  assume len: "length row = D" and "sorted (rev row)"
  then have "sorted_wrt (\<lambda>a b. b \<le> a) row" by (simp add: sorted_wrt_rev)
  then show ?thesis
    using odd_even_pass_desc_eq [of row] len by (simp add: cmpxr_sorted cmpxr_odd_sorted)
qed

lemma oet_recv_rows_same:
  assumes "\<forall>s. source \<le> s \<and> s < P \<longrightarrow>
             previous_row + (s - source) < length M \<and>
             oet_worker_row s (sent ! (s - 1)) D = Inr (M ! (previous_row + (s - source)))"
  shows "oet_recv_rows D P sent source previous_row M = Inr M"
  using assms
proof (induction D P sent source previous_row M rule: oet_recv_rows.induct)
  case (1 D P sent source previous_row M)
  show ?case
  proof (cases "source < P")
    case False
    then show ?thesis by (subst oet_recv_rows.simps) simp
  next
    case True
    with "1.prems" have a: "previous_row < length M"
      and b: "oet_worker_row source (sent ! (source - 1)) D = Inr (M ! previous_row)"
      by (auto dest: spec [of _ source])
    have d: "deposit_row D M previous_row (M ! previous_row) = M"
      using a by (rule deposit_row_same)
    have "oet_recv_rows D P sent (source + 1) (previous_row + 1) M = Inr M"
    proof (rule "1.IH" [OF True b, unfolded d])
      show "\<forall>s. source + 1 \<le> s \<and> s < P \<longrightarrow>
             previous_row + 1 + (s - (source + 1)) < length M \<and>
             oet_worker_row s (sent ! (s - 1)) D = Inr (M ! (previous_row + 1 + (s - (source + 1))))"
      proof (intro allI impI)
        fix s assume s: "source + 1 \<le> s \<and> s < P"
        then have e: "previous_row + 1 + (s - (source + 1)) = previous_row + (s - source)" by linarith
        have "source \<le> s \<and> s < P" using s by simp
        with "1.prems" show "previous_row + 1 + (s - (source + 1)) < length M \<and>
             oet_worker_row s (sent ! (s - 1)) D = Inr (M ! (previous_row + 1 + (s - (source + 1))))"
          unfolding e by blast
      qed
    qed
    then show ?thesis using True b d by (subst oet_recv_rows.simps) simp
  qed
qed

lemma oet_recv_columns_same:
  assumes "length M = D"
    and "\<forall>s. source \<le> s \<and> s < P \<longrightarrow>
             oet_worker_column (sent ! (s - 1)) D = Inr (extract_column D M (previous_column + (s - source)))"
  shows "oet_recv_columns D P sent source previous_column M = Inr M"
  using assms
proof (induction D P sent source previous_column M rule: oet_recv_columns.induct)
  case (1 D P sent source previous_column M)
  show ?case
  proof (cases "source < P")
    case False
    then show ?thesis by (subst oet_recv_columns.simps) simp
  next
    case True
    with "1.prems" have b: "oet_worker_column (sent ! (source - 1)) D = Inr (extract_column D M previous_column)"
      by (auto dest: spec [of _ source])
    have d: "deposit_column D M previous_column (extract_column D M previous_column) = M"
      using "1.prems"(1) by (rule deposit_extract_column)
    have "oet_recv_columns D P sent (source + 1) (previous_column + 1) M = Inr M"
    proof (rule "1.IH" [OF True b, unfolded d])
      show "length M = D" by (rule "1.prems"(1))
      show "\<forall>s. source + 1 \<le> s \<and> s < P \<longrightarrow>
             oet_worker_column (sent ! (s - 1)) D =
             Inr (extract_column D M (previous_column + 1 + (s - (source + 1))))"
      proof (intro allI impI)
        fix s assume s: "source + 1 \<le> s \<and> s < P"
        then have e: "previous_column + 1 + (s - (source + 1)) = previous_column + (s - source)" by linarith
        have "source \<le> s \<and> s < P" using s by simp
        with "1.prems"(2) show "oet_worker_column (sent ! (s - 1)) D =
             Inr (extract_column D M (previous_column + 1 + (s - (source + 1))))"
          unfolding e by blast
      qed
    qed
    then show ?thesis using True b d by (subst oet_recv_columns.simps) simp
  qed
qed

lemma block_index:
  fixes i P ROWS D k :: nat
  assumes "i < ROWS" "ROWS * P \<le> D" "k < P"
  shows "i * P + k < D"
proof -
  have "i * P + k < (i + 1) * P" using assms(3) by simp
  also have "\<dots> \<le> ROWS * P" using assms(1) by (intro mult_le_mono1) simp
  finally show ?thesis using assms(2) by simp
qed

lemma oet_worker_row_same:
  assumes wf: "wf_matrix D M" and ord: "oet_rows_ordered D P M"
    and i: "i < ROWS" "ROWS * P \<le> D" and s: "1 \<le> s" "s < P"
  shows "oet_worker_row s (oet_send_rows D P M (i * P) ! (s - 1)) D = Inr (M ! (i * P + (s - 1)))"
proof -
  define r where "r = i * P + (s - 1)"
  have s1: "s - 1 < P" "s - 1 < P - 1" "s - 1 < length [1..<P]" using s by simp_all
  have r: "r < D" unfolding r_def using i s1(1) by (rule block_index)
  have len: "length (M ! r) = D" using wf r by (rule wf_matrix_row)
  have "[1..<P] ! (s - 1) = 1 + (s - 1)" using s by (intro nth_upt) linarith
  then have "[1..<P] ! (s - 1) - 1 = s - 1" by simp
  then have "oet_send_rows D P M (i * P) ! (s - 1) = extract_row D M r"
    unfolding oet_send_rows_def r_def using s1(3) by (simp only: nth_map)
  then have sent: "oet_send_rows D P M (i * P) ! (s - 1) = M ! r"
    using len by (simp add: extract_row_eq)
  have "r mod P = (s - 1) mod P" unfolding r_def by (simp only: mod_mult_self3)
  then have "r mod P = s - 1" using s1(1) by simp
  then have rank: "oet_row_rank P r = s" using s s1(2) by (simp add: oet_row_rank_def)
  have "r \<in> set [0..<D]" using r by simp
  with ord have "if even (oet_row_rank P r) then sorted (M ! r) else sorted (rev (M ! r))"
    unfolding oet_rows_ordered_def by blast
  then have dir: "if even s then sorted (M ! r) else sorted (rev (M ! r))"
    by (simp only: rank)
  have "oet_worker_row s (M ! r) D = Inr (M ! r)"
  proof (cases "even s")
    case True
    with dir have "sorted (M ! r)" by simp
    with len have "odd_even_pass (M ! r) (int D) = Inr (M ! r)" by (rule odd_even_pass_sorted)
    with True show ?thesis by (simp add: oet_worker_row_def)
  next
    case False
    with dir have "sorted (rev (M ! r))" by simp
    with len have "odd_even_pass_desc (M ! r) (int D) = Inr (M ! r)" by (rule odd_even_pass_desc_sorted)
    with False show ?thesis by (simp add: oet_worker_row_def odd_iff_mod_2_eq_one)
  qed
  then show ?thesis unfolding sent r_def .
qed

lemma oet_sort_own_row_same:
  assumes wf: "wf_matrix D M" and ord: "oet_rows_ordered D P M"
    and i: "i < ROWS" "ROWS * P \<le> D" and P: "0 < P"
  shows "oet_sort_own_row D M (i * P + (P - 1)) = Inr M"
proof -
  define r where "r = i * P + (P - 1)"
  have P1: "P - 1 < P" using P by simp
  have r: "r < D" unfolding r_def using i P1 by (rule block_index)
  have len: "length (M ! r) = D" using wf r by (rule wf_matrix_row)
  have ex: "extract_row D M r = M ! r" using len by (simp add: extract_row_eq)
  have "r mod P = (P - 1) mod P" unfolding r_def by (simp only: mod_mult_self3)
  then have "r mod P = P - 1" using P1 by simp
  then have rank: "oet_row_rank P r = 0" by (simp add: oet_row_rank_def)
  have "r \<in> set [0..<D]" using r by simp
  with ord have "if even (oet_row_rank P r) then sorted (M ! r) else sorted (rev (M ! r))"
    unfolding oet_rows_ordered_def by blast
  then have "sorted (M ! r)" by (simp add: rank)
  with len have "odd_even_pass (M ! r) (int D) = Inr (M ! r)" by (rule odd_even_pass_sorted)
  moreover have "r < length M" using wf r by (simp add: wf_matrix_def)
  ultimately have "oet_sort_own_row D M r = Inr M"
    by (simp add: oet_sort_own_row_def ex deposit_row_same)
  then show ?thesis unfolding r_def .
qed

lemma oet_row_phase_same:
  assumes wf: "wf_matrix D M" and ord: "oet_rows_ordered D P M" and P: "0 < P"
    and bound: "ROWS * P \<le> D"
  shows "ROWS - i = n \<Longrightarrow> oet_row_phase D P ROWS i (i * P) M = Inr M"
proof (induction n arbitrary: i)
  case 0
  then show ?case by (subst oet_row_phase.simps) simp
next
  case (Suc n)
  then have i: "i < ROWS" by simp
  have own: "oet_sort_own_row D M (i * P + (P - 1)) = Inr M"
    using wf ord i bound P by (rule oet_sort_own_row_same)
  have recv: "oet_recv_rows D P (oet_send_rows D P M (i * P)) 1 (i * P) M = Inr M"
  proof (rule oet_recv_rows_same, intro allI impI)
    fix s assume s: "1 \<le> s \<and> s < P"
    have "s - 1 < P" using s by linarith
    with i bound have "i * P + (s - 1) < D" by (rule block_index)
    then have "i * P + (s - 1) < length M" using wf by (simp add: wf_matrix_def)
    moreover have "oet_worker_row s (oet_send_rows D P M (i * P) ! (s - 1)) D = Inr (M ! (i * P + (s - 1)))"
      using wf ord i bound s by (intro oet_worker_row_same) simp_all
    ultimately show "i * P + (s - 1) < length M \<and>
      oet_worker_row s (oet_send_rows D P M (i * P) ! (s - 1)) D = Inr (M ! (i * P + (s - 1)))"
      by simp
  qed
  have next_row: "i * P + (P - 1) + 1 = (i + 1) * P" using P by simp
  have "ROWS - (i + 1) = n" using Suc.prems by simp
  then have IH: "oet_row_phase D P ROWS (i + 1) ((i + 1) * P) M = Inr M" by (rule Suc.IH)
  have "oet_row_phase D P ROWS i (i * P) M =
        (case oet_sort_own_row D M (i * P + (P - 1)) of
           Inl e \<Rightarrow> Inl e
         | Inr M1 \<Rightarrow>
            (case oet_recv_rows D P (oet_send_rows D P M (i * P)) 1 (i * P) M1 of
               Inl e \<Rightarrow> Inl e
             | Inr M2 \<Rightarrow> oet_row_phase D P ROWS (i + 1) (i * P + (P - 1) + 1) M2))"
    using i by (subst oet_row_phase.simps) (simp only: Let_def if_True)
  also have "\<dots> = Inr M" by (simp only: own recv next_row IH sum.case)
  finally show ?case .
qed

lemma column_sorted_pass:
  assumes "columns_ordered D M" and "c < D"
  shows "odd_even_pass (extract_column D M c) (int D) = Inr (extract_column D M c)"
proof -
  have "c \<in> set [0..<D]" using assms(2) by simp
  with assms(1) have "sorted (extract_column D M c)" unfolding columns_ordered_def by blast
  moreover have "length (extract_column D M c) = D" by (simp add: extract_column_def)
  ultimately show ?thesis by (intro odd_even_pass_sorted)
qed

lemma oet_sort_own_column_same:
  assumes wf: "wf_matrix D M" and ord: "columns_ordered D M" and len: "length numbers = D"
    and j: "j < ROWS" "ROWS * P \<le> D" and P: "0 < P"
  shows "oet_sort_own_column D (M, numbers) (j * P + (P - 1)) =
         Inr (M, extract_column D M (j * P + (P - 1)))"
proof -
  define c where "c = j * P + (P - 1)"
  have P1: "P - 1 < P" using P by simp
  have c: "c < D" unfolding c_def using j P1 by (rule block_index)
  have lenM: "length M = D" using wf by (simp add: wf_matrix_def)
  have out: "column_to_numbers D M c numbers 0 = extract_column D M c"
    using len by (rule column_to_numbers_extract)
  have pass: "odd_even_pass (extract_column D M c) (int D) = Inr (extract_column D M c)"
    using ord c by (rule column_sorted_pass)
  have dep: "numbers_to_column D M c (extract_column D M c) 0 = M"
    using deposit_extract_column [OF lenM, of c] by (simp add: deposit_column_def)
  have "oet_sort_own_column D (M, numbers) c = Inr (M, extract_column D M c)"
    by (simp add: oet_sort_own_column_def Let_def out pass dep)
  then show ?thesis unfolding c_def .
qed

lemma oet_worker_column_same:
  assumes ord: "columns_ordered D M"
    and j: "j < ROWS" "ROWS * P \<le> D" and s: "1 \<le> s" "s < P"
  shows "oet_worker_column (oet_send_columns D P M (j * P) ! (s - 1)) D =
         Inr (extract_column D M (j * P + (s - 1)))"
proof -
  define c where "c = j * P + (s - 1)"
  have s1: "s - 1 < P" "s - 1 < length [1..<P]" using s by simp_all
  have c: "c < D" unfolding c_def using j s1(1) by (rule block_index)
  have "[1..<P] ! (s - 1) = 1 + (s - 1)" using s by (intro nth_upt) linarith
  then have "[1..<P] ! (s - 1) - 1 = s - 1" by simp
  then have sent: "oet_send_columns D P M (j * P) ! (s - 1) = extract_column D M c"
    unfolding oet_send_columns_def c_def using s1(2) by (simp only: nth_map)
  have "oet_worker_column (extract_column D M c) D = Inr (extract_column D M c)"
    unfolding oet_worker_column_def using ord c by (rule column_sorted_pass)
  then show ?thesis unfolding sent c_def .
qed

lemma oet_column_phase_same:
  assumes wf: "wf_matrix D M" and ord: "columns_ordered D M" and P: "0 < P"
    and bound: "ROWS * P \<le> D"
  shows "ROWS - j = n \<Longrightarrow> length numbers = D \<Longrightarrow>
         \<exists>numbers'. oet_column_phase D P ROWS j (j * P) (M, numbers) = Inr (M, numbers') \<and>
                    length numbers' = D"
proof (induction n arbitrary: j numbers)
  case 0
  then show ?case by (subst oet_column_phase.simps) simp
next
  case (Suc n)
  then have j: "j < ROWS" by simp
  let ?nb = "extract_column D M (j * P + (P - 1))"
  have lenM: "length M = D" using wf by (simp add: wf_matrix_def)
  have own: "oet_sort_own_column D (M, numbers) (j * P + (P - 1)) = Inr (M, ?nb)"
    using wf ord Suc.prems(2) j bound P by (rule oet_sort_own_column_same)
  have recv: "oet_recv_columns D P (oet_send_columns D P M (j * P)) 1 (j * P) M = Inr M"
  proof (rule oet_recv_columns_same [OF lenM], intro allI impI)
    fix s assume s: "1 \<le> s \<and> s < P"
    show "oet_worker_column (oet_send_columns D P M (j * P) ! (s - 1)) D =
          Inr (extract_column D M (j * P + (s - 1)))"
      using ord j bound s by (intro oet_worker_column_same) simp_all
  qed
  have next_column: "j * P + (P - 1) + 1 = (j + 1) * P" using P by simp
  have "ROWS - (j + 1) = n" using Suc.prems by simp
  moreover have "length ?nb = D" by (simp add: extract_column_def)
  ultimately obtain numbers' where
    IH: "oet_column_phase D P ROWS (j + 1) ((j + 1) * P) (M, ?nb) = Inr (M, numbers')"
    and len': "length numbers' = D"
    using Suc.IH [of "j + 1" ?nb] by blast
  have "oet_column_phase D P ROWS j (j * P) (M, numbers) =
        (case oet_sort_own_column D (M, numbers) (j * P + (P - 1)) of
           Inl e \<Rightarrow> Inl e
         | Inr st1 \<Rightarrow>
            (case oet_recv_columns D P (oet_send_columns D P (fst (M, numbers)) (j * P)) 1 (j * P) (fst st1) of
               Inl e \<Rightarrow> Inl e
             | Inr M2 \<Rightarrow> oet_column_phase D P ROWS (j + 1) (j * P + (P - 1) + 1) (M2, snd st1)))"
    using j by (subst oet_column_phase.simps) (simp only: Let_def if_True)
  also have "\<dots> = Inr (M, numbers')"
    by (simp only: own recv next_column IH sum.case fst_conv snd_conv)
  finally show ?case using len' by blast
qed

text \<open>
  C7, as amended. Take a matrix for which the convergence check returns true, in which
  every row is already in the order its process sorts towards and every column is
  non-decreasing. One more super-step of the transposition sort (row phase, then column
  phase) returns the same matrix, and the check returns true on it.
\<close>

theorem super_step_keeps_ordered_matrix:
  assumes "wf_matrix D M" and "0 < P" and "length numbers = D"
    and "oet_rows_ordered D P M" and "columns_ordered D M" and "check_sorted D M"
  shows "\<exists>st'. oet_super_step D P (M, numbers) = Inr st' \<and> fst st' = M \<and> check_sorted D (fst st')"
proof -
  have bound: "D div P * P \<le> D" by simp
  have rows: "oet_row_phase D P (D div P) 0 0 M = Inr M"
    using oet_row_phase_same [OF assms(1,4,2) bound, of 0 "D div P"] by simp
  obtain numbers' where
    "oet_column_phase D P (D div P) 0 0 (M, numbers) = Inr (M, numbers')"
    using oet_column_phase_same [OF assms(1,5,2) bound, of 0 "D div P" numbers] assms(3) by auto
  then have "oet_super_step D P (M, numbers) = Inr (M, numbers')"
    by (simp add: oet_super_step_def rows)
  then show ?thesis using assms(6) by simp
qed

theorem super_step_keeps_ordered_matrix_witness:
  "wf_matrix 2 [[2, 1], [3, 4]] \<and> (0::nat) < 2 \<and> length [0, 0 :: int] = 2 \<and>
   oet_rows_ordered 2 2 [[2, 1], [3, 4]] \<and> columns_ordered 2 [[2, 1], [3, 4]] \<and>
   check_sorted 2 [[2, 1], [3, 4]] \<and>
   (\<exists>st'. oet_super_step 2 2 ([[2, 1], [3, 4]], [0, 0]) = Inr st' \<and> fst st' = [[2, 1], [3, 4]] \<and>
      check_sorted 2 (fst st'))"
proof -
  have h1: "wf_matrix 2 [[2, 1], [3, 4]]" by code_simp
  have h2: "(0::nat) < 2" by simp
  have h3: "length [0, 0 :: int] = 2" by simp
  have h4: "oet_rows_ordered 2 2 [[2, 1], [3, 4]]" by code_simp
  have h5: "columns_ordered 2 [[2, 1], [3, 4]]" by code_simp
  have h6: "check_sorted 2 [[2, 1], [3, 4]]" by code_simp
  from super_step_keeps_ordered_matrix [OF h1 h2 h3 h4 h5 h6] h1 h2 h3 h4 h5 h6
  show ?thesis by blast
qed

text \<open>
  C7 as stated fails: with three processes, the \<open>3 \<times> 3\<close> matrix whose rows are all
  1, 2, 3 passes the check, and the matrix that one super-step makes of it does not
  (worker 1 turns row 0 towards descending order).
\<close>

theorem super_step_breaks_snake_order:
  "check_sorted 3 [[1, 2, 3], [1, 2, 3], [1, 2, 3]] \<and>
   oet_super_step 3 3 ([[1, 2, 3], [1, 2, 3], [1, 2, 3]], [0, 0, 0]) =
     Inr ([[1, 1, 2], [3, 2, 3], [1, 2, 3]], [2, 3, 3]) \<and>
   \<not> check_sorted 3 [[1, 1, 2], [3, 2, 3], [1, 2, 3]]"
  by code_simp

end
